theory Spec2Isabelle
  imports Complex_Main "HOL-Library.Word" "HOL-Library.Multiset"
begin

section \<open>Numbers, typed arrays and strings of the host language\<close>

text \<open>
  The pixel data of a canvas is a \<open>Uint8ClampedArray\<close> and the marker grid of the fill is
  a \<open>Uint8Array\<close>: lists of 8-bit words. A number of the program is an integer or
  \<open>NaN\<close>; \<open>None\<close> stands for \<open>NaN\<close> and also for \<open>undefined\<close>, which the
  program only ever subtracts (giving \<open>NaN\<close>) or compares with \<open>===\<close> against a
  number (giving false, as \<open>NaN\<close> does). All numbers that occur are integers far
  below \<open>2^53\<close> whenever they index an array, so integer arithmetic is exact.
\<close>

type_synonym byte = "8 word"

type_synonym jsnum = "int option"

definition rd :: "byte list \<Rightarrow> int \<Rightarrow> jsnum" where
  \<comment> \<open>\<open>a[i]\<close> on a typed array: \<open>undefined\<close> out of range.\<close>
  "rd a i = (if 0 \<le> i \<and> i < int (length a) then Some (uint (a ! nat i)) else None)"

definition wr :: "byte list \<Rightarrow> int \<Rightarrow> byte \<Rightarrow> byte list" where
  \<comment> \<open>\<open>a[i] = v\<close> on a typed array: ignored out of range.\<close>
  "wr a i v = (if 0 \<le> i \<and> i < int (length a) then a[nat i := v] else a)"

definition toUint8Clamp :: "jsnum \<Rightarrow> byte" where
  \<comment> \<open>The conversion a \<open>Uint8ClampedArray\<close> applies to a stored number.\<close>
  "toUint8Clamp v = (case v of None \<Rightarrow> 0 | Some n \<Rightarrow> word_of_int (max 0 (min 255 n)))"

definition truthy :: "jsnum \<Rightarrow> bool" where
  "truthy v = (case v of None \<Rightarrow> False | Some n \<Rightarrow> n \<noteq> 0)"

definition strictEq :: "jsnum \<Rightarrow> jsnum \<Rightarrow> bool" where
  "strictEq a b = (case (a, b) of (Some x, Some y) \<Rightarrow> x = y | _ \<Rightarrow> False)"

definition nsub :: "jsnum \<Rightarrow> jsnum \<Rightarrow> jsnum" where
  "nsub a b = (case (a, b) of (Some x, Some y) \<Rightarrow> Some (x - y) | _ \<Rightarrow> None)"

definition nadd :: "jsnum \<Rightarrow> jsnum \<Rightarrow> jsnum" where
  "nadd a b = (case (a, b) of (Some x, Some y) \<Rightarrow> Some (x + y) | _ \<Rightarrow> None)"

definition nmul :: "jsnum \<Rightarrow> jsnum \<Rightarrow> jsnum" where
  "nmul a b = (case (a, b) of (Some x, Some y) \<Rightarrow> Some (x * y) | _ \<Rightarrow> None)"

definition nless :: "jsnum \<Rightarrow> jsnum \<Rightarrow> bool" where
  "nless a b = (case (a, b) of (Some x, Some y) \<Rightarrow> x < y | _ \<Rightarrow> False)"

definition replaceHash :: "string \<Rightarrow> string" where
  \<comment> \<open>\<open>s.replace('#', '')\<close>: the first \<open>#\<close> is removed.\<close>
  "replaceHash s =
     takeWhile (\<lambda>c. c \<noteq> CHR ''#'') s @ drop 1 (dropWhile (\<lambda>c. c \<noteq> CHR ''#'') s)"

definition substring :: "string \<Rightarrow> nat \<Rightarrow> nat \<Rightarrow> string" where
  "substring s a b = take (max a b - min a b) (drop (min a b) s)"

definition isWhiteSpace :: "char \<Rightarrow> bool" where
  "isWhiteSpace c = ((of_char c :: nat) \<in> {9, 10, 11, 12, 13, 32, 160})"

definition hexVal :: "char \<Rightarrow> int option" where
  "hexVal c =
     (let n = (of_char c :: nat) in
      if 48 \<le> n \<and> n \<le> 57 then Some (int n - 48)
      else if 97 \<le> n \<and> n \<le> 102 then Some (int n - 87)
      else if 65 \<le> n \<and> n \<le> 70 then Some (int n - 55)
      else None)"

definition parseInt16 :: "string \<Rightarrow> jsnum" where
  \<comment> \<open>\<open>parseInt(s, 16)\<close>: white space, a sign and \<open>0x\<close> are skipped, the longest
      prefix of hexadecimal digits is read, and no digit at all gives \<open>NaN\<close>.\<close>
  "parseInt16 s =
     (let t = dropWhile isWhiteSpace s;
          sign = (if take 1 t = ''-'' then - 1 else 1);
          u = (if take 1 t = ''-'' \<or> take 1 t = ''+'' then drop 1 t else t);
          v = (if take 2 u = ''0x'' \<or> take 2 u = ''0X'' then drop 2 u else u);
          ds = takeWhile (\<lambda>c. hexVal c \<noteq> None) v
      in if ds = [] then None
         else Some (sign * foldl (\<lambda>acc c. acc * 16 + the (hexVal c)) 0 ds))"

section \<open>The flood fill of \<open>utils/floodFill.ts\<close>\<close>

datatype error = IndexSizeError

record rgba =
  chR :: jsnum
  chG :: jsnum
  chB :: jsnum
  chA :: jsnum

definition parseFill :: "string \<Rightarrow> rgba" where
  \<comment> \<open>Step 2 of the source: the fill colour, alpha fixed to 255.\<close>
  "parseFill fillColorHex =
     (let hex = replaceHash fillColorHex in
      \<lparr>chR = parseInt16 (substring hex 0 2),
       chG = parseInt16 (substring hex 2 4),
       chB = parseInt16 (substring hex 4 6),
       chA = Some 255\<rparr>)"

definition startColor :: "byte list \<Rightarrow> int \<Rightarrow> int \<Rightarrow> nat \<Rightarrow> rgba" where
  \<comment> \<open>Step 3 of the source: the colour read at the start position.\<close>
  "startColor d startX startY width =
     (let startPos = (startY * int width + startX) * 4 in
      \<lparr>chR = rd d startPos, chG = rd d (startPos + 1),
       chB = rd d (startPos + 2), chA = rd d (startPos + 3)\<rparr>)"

definition sameColor :: "rgba \<Rightarrow> rgba \<Rightarrow> bool" where
  "sameColor s f =
     (strictEq (chR s) (chR f) \<and> strictEq (chG s) (chG f)
      \<and> strictEq (chB s) (chB f) \<and> strictEq (chA s) (chA f))"

definition matchColor :: "rgba \<Rightarrow> byte list \<Rightarrow> int \<Rightarrow> bool" where
  "matchColor start d pos =
     (let dr = nsub (rd d pos) (chR start);
          dg = nsub (rd d (pos + 1)) (chG start);
          db = nsub (rd d (pos + 2)) (chB start);
          da = nsub (rd d (pos + 3)) (chA start)
      in nless (nadd (nadd (nadd (nmul dr dr) (nmul dg dg)) (nmul db db)) (nmul da da))
               (Some 12000))"

definition colorPixel :: "rgba \<Rightarrow> byte list \<Rightarrow> int \<Rightarrow> byte list" where
  "colorPixel f d pos =
     wr (wr (wr (wr d pos (toUint8Clamp (chR f)))
                (pos + 1) (toUint8Clamp (chG f)))
            (pos + 2) (toUint8Clamp (chB f)))
        (pos + 3) (toUint8Clamp (chA f))"

text \<open>
  The state of the work loop: the stack (the head of the list is the top), the pixel data
  and the marker grid. The field \<open>marked\<close> is a ghost log, absent from the source: it
  records, in order, the pixel index of every execution of \<open>seen[pixelIndex] = 1\<close>.
\<close>

record fillState =
  stack :: "(int \<times> int) list"
  data :: "byte list"
  seen :: "byte list"
  marked :: "int list"

definition neighbours :: "int \<times> int \<Rightarrow> (int \<times> int) list" where
  \<comment> \<open>The four pushes of the source, in the order they are made.\<close>
  "neighbours p = (case p of (x, y) \<Rightarrow> [(x + 1, y), (x - 1, y), (x, y + 1), (x, y - 1)])"

definition loopBody ::
  "(int \<times> int \<Rightarrow> (int \<times> int) list) \<Rightarrow> nat \<Rightarrow> nat \<Rightarrow> rgba \<Rightarrow> rgba \<Rightarrow> fillState \<Rightarrow> fillState" where
  \<comment> \<open>One iteration of the \<open>while\<close> loop. The coordinates pushed, in push order, are
      \<open>pushes (x, y)\<close>; the source pushes \<open>neighbours (x, y)\<close>. The loop enters the
      body with a non-empty stack only, so the first case is never taken.\<close>
  "loopBody pushes width height start fill s =
     (case stack s of
        [] \<Rightarrow> s
      | (x, y) # rest \<Rightarrow>
          (let pixelIndex = y * int width + x;
               pos = pixelIndex * 4
           in if x < 0 \<or> x \<ge> int width \<or> y < 0 \<or> y \<ge> int height then s\<lparr>stack := rest\<rparr>
              else if truthy (rd (seen s) pixelIndex) then s\<lparr>stack := rest\<rparr>
              else if matchColor start (data s) pos then
                s\<lparr>stack := rev (pushes (x, y)) @ rest,
                  data := colorPixel fill (data s) pos,
                  seen := wr (seen s) pixelIndex 1,
                  marked := marked s @ [pixelIndex]\<rparr>
              else s\<lparr>stack := rest\<rparr>))"

partial_function (option) fillLoop ::
  "(int \<times> int \<Rightarrow> (int \<times> int) list) \<Rightarrow> nat \<Rightarrow> nat \<Rightarrow> rgba \<Rightarrow> rgba \<Rightarrow> fillState \<Rightarrow> fillState option" where
  "fillLoop pushes width height start fill s =
     (if stack s = [] then Some s
      else fillLoop pushes width height start fill (loopBody pushes width height start fill s))"

declare fillLoop.simps [code]

definition initState :: "byte list \<Rightarrow> int \<Rightarrow> int \<Rightarrow> nat \<Rightarrow> nat \<Rightarrow> fillState" where
  "initState d startX startY width height =
     \<lparr>stack = [(startX, startY)], data = d, seen = replicate (width * height) 0, marked = []\<rparr>"

definition fillRun ::
  "(int \<times> int \<Rightarrow> (int \<times> int) list) \<Rightarrow> byte list \<Rightarrow> int \<Rightarrow> int \<Rightarrow> string \<Rightarrow> nat \<Rightarrow> nat \<Rightarrow> fillState option" where
  \<comment> \<open>Step 4 of the source: the loop from its initial state.\<close>
  "fillRun pushes d startX startY fillColorHex width height =
     fillLoop pushes width height (startColor d startX startY width) (parseFill fillColorHex)
       (initState d startX startY width height)"

definition floodFillOrd ::
  "(int \<times> int \<Rightarrow> (int \<times> int) list) \<Rightarrow> byte list \<Rightarrow> int \<Rightarrow> int \<Rightarrow> string \<Rightarrow> nat \<Rightarrow> nat
     \<Rightarrow> (error + byte list) option" where
  \<comment> \<open>\<open>floodFill\<close> with the push order as a parameter. The argument \<open>d\<close> is the pixel
      data of the context, which \<open>getImageData(0, 0, width, height)\<close> returns (it throws
      \<open>IndexSizeError\<close> for an empty rectangle); the result is the data that
      \<open>putImageData\<close> writes back. \<open>None\<close>: the loop does not terminate.\<close>
  "floodFillOrd pushes d startX startY fillColorHex width height =
     (if width = 0 \<or> height = 0 then Some (Inl IndexSizeError)
      else if sameColor (startColor d startX startY width) (parseFill fillColorHex)
        then Some (Inr d)
      else map_option (\<lambda>s. Inr (data s))
             (fillRun pushes d startX startY fillColorHex width height))"

definition floodFill ::
  "byte list \<Rightarrow> int \<Rightarrow> int \<Rightarrow> string \<Rightarrow> nat \<Rightarrow> nat \<Rightarrow> (error + byte list) option" where
  "floodFill = floodFillOrd neighbours"

section \<open>Specification notions for the fill\<close>

text \<open>
  A buffer is the pixel data of a \<open>width\<close> by \<open>height\<close> canvas, both positive, four
  bytes per pixel in row order. \<open>pixel\<close> is the colour of an in-bounds pixel,
  \<open>sqDist\<close> the sum of the squared channel differences of two colours, and
  \<open>region\<close> the set of pixels reached from the seed by steps to one of the four
  axis-aligned neighbours that lies in bounds and whose colour in the original buffer is
  at squared distance below 12000 from the seed's. \<open>targetColor\<close> is the fill colour
  as the source parses it, \<open>fillBytes\<close> the four bytes \<open>colorPixel\<close> stores, and
  \<open>isHexColor\<close> holds of the strings \<open>#rrggbb\<close> that the colour picker supplies.
\<close>

definition inBounds :: "nat \<Rightarrow> nat \<Rightarrow> int \<times> int \<Rightarrow> bool" where
  "inBounds width height p = (case p of (x, y) \<Rightarrow> 0 \<le> x \<and> x < int width \<and> 0 \<le> y \<and> y < int height)"

definition pixelIndexOf :: "nat \<Rightarrow> int \<times> int \<Rightarrow> int" where
  "pixelIndexOf width p = (case p of (x, y) \<Rightarrow> y * int width + x)"

definition pixel :: "byte list \<Rightarrow> nat \<Rightarrow> int \<times> int \<Rightarrow> byte list" where
  "pixel d width p =
     (let pos = nat (pixelIndexOf width p * 4) in [d ! pos, d ! (pos + 1), d ! (pos + 2), d ! (pos + 3)])"

definition fillBytes :: "rgba \<Rightarrow> byte list" where
  "fillBytes f = [toUint8Clamp (chR f), toUint8Clamp (chG f), toUint8Clamp (chB f), toUint8Clamp (chA f)]"

definition sqDist :: "byte list \<Rightarrow> byte list \<Rightarrow> int" where
  "sqDist a b =
     (uint (a ! 0) - uint (b ! 0))\<^sup>2 + (uint (a ! 1) - uint (b ! 1))\<^sup>2
     + (uint (a ! 2) - uint (b ! 2))\<^sup>2 + (uint (a ! 3) - uint (b ! 3))\<^sup>2"

definition similar :: "byte list \<Rightarrow> nat \<Rightarrow> int \<times> int \<Rightarrow> int \<times> int \<Rightarrow> bool" where
  "similar d width seed q = (sqDist (pixel d width q) (pixel d width seed) < 12000)"

inductive_set region :: "byte list \<Rightarrow> nat \<Rightarrow> nat \<Rightarrow> int \<times> int \<Rightarrow> (int \<times> int) set"
  for d :: "byte list" and width :: nat and height :: nat and seed :: "int \<times> int" where
  seed: "inBounds width height seed \<Longrightarrow> seed \<in> region d width height seed"
| step: "p \<in> region d width height seed \<Longrightarrow> q \<in> set (neighbours p) \<Longrightarrow>
         inBounds width height q \<Longrightarrow> similar d width seed q \<Longrightarrow>
         q \<in> region d width height seed"

definition seenAt :: "byte list \<Rightarrow> int \<Rightarrow> bool" where
  "seenAt sn k = truthy (rd sn k)"

definition wfBuffer :: "byte list \<Rightarrow> nat \<Rightarrow> nat \<Rightarrow> bool" where
  "wfBuffer d width height = (0 < width \<and> 0 < height \<and> length d = width * height * 4)"

definition unseen :: "byte list \<Rightarrow> int set" where
  "unseen sn = {k. 0 \<le> k \<and> k < int (length sn) \<and> \<not> seenAt sn k}"

definition channels :: "byte list \<Rightarrow> jsnum list" where
  "channels px = map (\<lambda>b. Some (uint b)) px"

definition targetColor :: "string \<Rightarrow> jsnum list" where
  "targetColor fillColorHex =
     (let f = parseFill fillColorHex in [chR f, chG f, chB f, chA f])"

definition isHexColor :: "string \<Rightarrow> bool" where
  "isHexColor s =
     (case s of [] \<Rightarrow> False
      | c # ds \<Rightarrow> c = CHR ''#'' \<and> length ds = 6 \<and> list_all (\<lambda>c. hexVal c \<noteq> None) ds)"

text \<open>
  The invariant of the work loop, for the original data \<open>d0\<close> and the seed \<open>sd\<close>:
  marked pixels lie in the region and carry the fill colour, all others their original
  bytes; every neighbour in the region of a marked pixel is marked or on the stack, as is
  the seed; whatever on the stack is in bounds and similar lies in the region; and the log
  lists the marked indices without repetition.
\<close>

definition fillInv :: "byte list \<Rightarrow> nat \<Rightarrow> nat \<Rightarrow> int \<times> int \<Rightarrow> rgba \<Rightarrow> fillState \<Rightarrow> bool" where
  "fillInv d0 w h sd f s =
     (length (data s) = length d0 \<and> length (seen s) = w * h
      \<and> (\<forall>p. inBounds w h p \<and> seenAt (seen s) (pixelIndexOf w p) \<longrightarrow> p \<in> region d0 w h sd)
      \<and> (\<forall>i<length d0. data s ! i =
            (if seenAt (seen s) (int (i div 4)) then fillBytes f ! (i mod 4) else d0 ! i))
      \<and> (\<forall>p q. inBounds w h p \<and> seenAt (seen s) (pixelIndexOf w p) \<and> q \<in> set (neighbours p)
             \<and> q \<in> region d0 w h sd
             \<longrightarrow> seenAt (seen s) (pixelIndexOf w q) \<or> q \<in> set (stack s))
      \<and> (seenAt (seen s) (pixelIndexOf w sd) \<or> sd \<in> set (stack s))
      \<and> (\<forall>q\<in>set (stack s). inBounds w h q \<and> similar d0 w sd q \<longrightarrow> q \<in> region d0 w h sd)
      \<and> distinct (marked s) \<and> set (marked s) = {k. seenAt (seen s) k})"

text \<open>
  A 2 by 2 buffer (white, black; near-white, white) and its fill with red from the
  top-left pixel, for the instances below.
\<close>

definition sampleBuffer :: "byte list" where
  "sampleBuffer = [255, 255, 255, 255,  0, 0, 0, 255,  250, 250, 250, 255,  255, 255, 255, 255]"

definition sampleFilled :: "byte list" where
  "sampleFilled = [255, 0, 0, 255,  0, 0, 0, 255,  255, 0, 0, 255,  255, 0, 0, 255]"

definition sampleState :: "int \<times> int \<Rightarrow> fillState" where
  "sampleState p = \<lparr>stack = [p], data = sampleBuffer, seen = [0, 0, 0, 0], marked = []\<rparr>"

section \<open>The drawing surface of \<open>components/Canvas.tsx\<close>\<close>

text \<open>
  The state of the component: the bitmap of the canvas (what \<open>getImageData\<close> over the
  whole canvas returns and \<open>putImageData\<close> at the origin replaces), the \<open>history\<close>
  state, the property \<open>triggerUndo\<close> that the parent increments on every click of the
  undo button, the reference \<open>prevTriggerUndo\<close>, and the saved image whose \<open>onload\<close>
  handler is registered but has not run yet. The canvas, its container and its 2D
  context exist, as they do once the component is mounted. \<open>saveHistory\<close> is the
  function on a canvas of positive width and height, where \<open>getImageData\<close> over the
  whole canvas returns its bitmap. \<open>mount\<close>, where the size is taken from the
  container, and the handlers \<open>imageLoaded\<close> and \<open>handle\<close>, which are given that
  size, have the other case: \<open>getImageData\<close> throws and the handler ends before it
  sets the history.
\<close>

type_synonym ImageData = "byte list"

record 'img component =
  bitmap :: ImageData
  history :: "ImageData list"
  triggerUndo :: nat
  prevTriggerUndo :: nat
  pendingLoad :: "'img option"

datatype ToolType = PENCIL | BRUSH | ERASER | BUCKET

definition saveHistory :: "'img component \<Rightarrow> 'img component" where
  "saveHistory c =
     (let currentData = bitmap c;
          newHist = history c @ [currentData]
      in c\<lparr>history := (if length newHist > 20 then tl newHist else newHist)\<rparr>)"

definition undoEffect :: "'img component \<Rightarrow> 'img component" where
  \<comment> \<open>The effect on \<open>[triggerUndo, history]\<close>.\<close>
  "undoEffect c =
     (if triggerUndo c = 0 \<or> triggerUndo c = prevTriggerUndo c then c
      else
        (let c1 = c\<lparr>prevTriggerUndo := triggerUndo c\<rparr> in
         if length (history c1) > 1 then
           (let newHistory = butlast (history c1);
                previousState = (if newHistory = [] then None else Some (last newHistory))
            in case previousState of
                 None \<Rightarrow> c1
               | Some st \<Rightarrow> c1\<lparr>bitmap := st, history := newHistory\<rparr>)
         else c1))"

definition undo :: "'img component \<Rightarrow> 'img component" where
  \<comment> \<open>A click on the undo button: \<open>handleUndo\<close> of the parent increments the trigger,
      and the effect runs.\<close>
  "undo c = undoEffect (c\<lparr>triggerUndo := triggerUndo c + 1\<rparr>)"

definition commit :: "ImageData \<Rightarrow> 'img component \<Rightarrow> 'img component" where
  \<comment> \<open>A committed mutation (stroke, fill, clear or import): the bitmap has become \<open>b\<close>
      and \<open>saveHistory\<close> is called.\<close>
  "commit b c = saveHistory (c\<lparr>bitmap := b\<rparr>)"

definition commits :: "ImageData list \<Rightarrow> 'img component \<Rightarrow> 'img component" where
  "commits bs c = foldl (\<lambda>c b. commit b c) c bs"

definition blank :: "nat \<Rightarrow> nat \<Rightarrow> ImageData" where
  \<comment> \<open>The canvas after \<open>fillStyle = '#ffffff'; fillRect(0, 0, width, height)\<close>.\<close>
  "blank w h = concat (replicate (w * h) [255, 255, 255, 255])"

definition mount :: "nat \<Rightarrow> nat \<Rightarrow> 'img option \<Rightarrow> error + 'img component" where
  \<comment> \<open>The initialisation effect, for a container of \<open>w\<close> by \<open>h\<close> pixels and the
      entry \<open>savedCanvas\<close> of the local storage. The state before it is that of the
      first render: an empty history and both triggers 0.\<close>
  "mount w h savedCanvas =
     (let c = \<lparr>bitmap = blank w h, history = [], triggerUndo = 0, prevTriggerUndo = 0,
                pendingLoad = None\<rparr>
      in case savedCanvas of
           Some img \<Rightarrow> Inr (c\<lparr>pendingLoad := Some img\<rparr>)
         | None \<Rightarrow>
             if w = 0 \<or> h = 0 then Inl IndexSizeError
             else Inr (c\<lparr>history := [bitmap c]\<rparr>))"

definition getImageData :: "nat \<Rightarrow> nat \<Rightarrow> ImageData \<Rightarrow> error + ImageData" where
  \<comment> \<open>\<open>ctx.getImageData(0, 0, canvas.width, canvas.height)\<close> on a canvas of \<open>w\<close> by
      \<open>h\<close> pixels whose bitmap is \<open>b\<close>.\<close>
  "getImageData w h b = (if w = 0 \<or> h = 0 then Inl IndexSizeError else Inr b)"

definition imageLoaded ::
  "('img \<Rightarrow> ImageData \<Rightarrow> ImageData) \<Rightarrow> nat \<Rightarrow> nat \<Rightarrow> 'img component \<Rightarrow> 'img component" where
  \<comment> \<open>The \<open>onload\<close> handler of the saved image on a canvas of \<open>w\<close> by \<open>h\<close>
      pixels; \<open>drawImage img b\<close> is the bitmap after \<open>ctx.drawImage(img, 0, 0)\<close> on
      the bitmap \<open>b\<close>. When \<open>getImageData\<close> throws, the image has been drawn and
      \<open>setHistory\<close> is not reached.\<close>
  "imageLoaded drawImage w h c =
     (case pendingLoad c of
        None \<Rightarrow> c
      | Some img \<Rightarrow>
          (let drawn = drawImage img (bitmap c)
           in case getImageData w h drawn of
                Inl e \<Rightarrow> c\<lparr>bitmap := drawn, pendingLoad := None\<rparr>
              | Inr currentData \<Rightarrow>
                  c\<lparr>bitmap := drawn, history := [currentData], pendingLoad := None\<rparr>))"

datatype event = Commit ImageData | UndoClick | ImageLoaded


fun handle ::
  "('img \<Rightarrow> ImageData \<Rightarrow> ImageData) \<Rightarrow> nat \<Rightarrow> nat \<Rightarrow> 'img component \<Rightarrow> event
     \<Rightarrow> 'img component" where
  "handle drawImage w h c (Commit b) =
     (case getImageData w h b of
        Inl e \<Rightarrow> c\<lparr>bitmap := b\<rparr>
      | Inr currentData \<Rightarrow> commit b c)"
| "handle drawImage w h c UndoClick = undo c"
| "handle drawImage w h c ImageLoaded = imageLoaded drawImage w h c"

definition run ::
  "('img \<Rightarrow> ImageData \<Rightarrow> ImageData) \<Rightarrow> nat \<Rightarrow> nat \<Rightarrow> 'img component \<Rightarrow> event list
     \<Rightarrow> 'img component" where
  \<comment> \<open>The events that follow \<open>mount\<close> on a canvas of \<open>w\<close> by \<open>h\<close> pixels, in the
      order in which their handlers run.\<close>
  "run drawImage w h c es = foldl (handle drawImage w h) c es"

record strokeCall =
  moveTo :: "real \<times> real"
  lineTo :: "real \<times> real"
  strokeStyle :: string
  lineWidth :: real
  lineCap :: string
  lineJoin :: string

definition draw ::
  "ToolType \<Rightarrow> string \<Rightarrow> real \<Rightarrow> real \<times> real \<Rightarrow> real \<times> real \<Rightarrow> strokeCall" where
  \<comment> \<open>\<open>draw(start, end)\<close> under the properties \<open>tool\<close>, \<open>color\<close> and
      \<open>brushSize\<close>: the path and the properties of the context when \<open>stroke()\<close> is
      called.\<close>
  "draw tool color brushSize start end' =
     \<lparr>moveTo = start, lineTo = end',
      strokeStyle = (if tool = ERASER then ''#ffffff'' else color),
      lineWidth = brushSize, lineCap = ''round'', lineJoin = ''round''\<rparr>"

text \<open>Twenty-five one-byte snapshots and a component with a given history, for the instances below.\<close>

definition sampleSnaps :: "ImageData list" where
  "sampleSnaps = map (\<lambda>n. [of_nat n]) [0..<25]"

definition sampleComponent :: "ImageData list \<Rightarrow> unit component" where
  "sampleComponent hs =
     \<lparr>bitmap = last hs, history = hs, triggerUndo = 0, prevTriggerUndo = 0, pendingLoad = None\<rparr>"


section \<open>Basic facts\<close>

lemma idx_range:
  assumes "inBounds w h p"
  shows "0 \<le> pixelIndexOf w p \<and> pixelIndexOf w p < int (w * h)"
proof -
  obtain x y where p: "p = (x, y)" by (cases p)
  from assms p have b: "0 \<le> x" "x < int w" "0 \<le> y" "y < int h"
    by (simp_all add: inBounds_def)
  have "y + 1 \<le> int h" using b by simp
  then have "(y + 1) * int w \<le> int h * int w"
    by (rule mult_right_mono) simp
  then have "y * int w + x < int h * int w" using b by (simp add: algebra_simps)
  moreover have "0 \<le> y * int w" using b by simp
  ultimately show ?thesis using b p by (simp add: pixelIndexOf_def mult.commute)
qed

lemma idx_inj:
  assumes "inBounds w h p" "inBounds w h q" "pixelIndexOf w p = pixelIndexOf w q"
  shows "p = q"
proof -
  obtain x y where p: "p = (x, y)" by (cases p)
  obtain x' y' where q: "q = (x', y')" by (cases q)
  from assms p q have b: "0 \<le> x" "x < int w" "0 \<le> x'" "x' < int w"
    and e: "y * int w + x = y' * int w + x'"
    by (simp_all add: inBounds_def pixelIndexOf_def)
  have w: "int w \<noteq> 0" using b by auto
  have "(x + y * int w) div int w = (x' + y' * int w) div int w"
    using e by (simp add: add.commute)
  then have "y = y'" using b w by (simp add: div_pos_pos_trivial)
  with e show ?thesis using p q by simp
qed

lemma rd_in: "0 \<le> i \<Longrightarrow> i < int (length a) \<Longrightarrow> rd a i = Some (uint (a ! nat i))"
  by (simp add: rd_def)

lemma length_wr [simp]: "length (wr a i v) = length a"
  by (simp add: wr_def)

lemma length_colorPixel [simp]: "length (colorPixel f d pos) = length d"
  by (simp add: colorPixel_def)

lemma colorPixel_upd:
  assumes "n + 3 < length d"
  shows "colorPixel f d (int n) =
    d[n := toUint8Clamp (chR f), n + 1 := toUint8Clamp (chG f),
      n + 2 := toUint8Clamp (chB f), n + 3 := toUint8Clamp (chA f)]"
proof -
  have "nat (int n + 1) = n + 1" "nat (int n + 2) = n + 2" "nat (int n + 3) = n + 3"
    by simp_all
  then show ?thesis using assms
    unfolding colorPixel_def wr_def by simp
qed

lemma colorPixel_nth:
  assumes "i < length d" "4 * k + 3 < length d"
  shows "colorPixel f d (int (4 * k)) ! i = (if i div 4 = k then fillBytes f ! (i mod 4) else d ! i)"
proof -
  have cp: "colorPixel f d (int (4 * k)) =
    d[4 * k := toUint8Clamp (chR f), 4 * k + 1 := toUint8Clamp (chG f),
      4 * k + 2 := toUint8Clamp (chB f), 4 * k + 3 := toUint8Clamp (chA f)]"
    using assms(2) by (rule colorPixel_upd)
  have "i div 4 \<noteq> k \<or> i = 4 * k \<or> i = 4 * k + 1 \<or> i = 4 * k + 2 \<or> i = 4 * k + 3"
    by presburger
  moreover have "i div 4 \<noteq> k \<Longrightarrow> i \<noteq> 4 * k \<and> i \<noteq> 4 * k + 1 \<and> i \<noteq> 4 * k + 2 \<and> i \<noteq> 4 * k + 3"
    by presburger
  moreover have "Suc (4 * k) div 4 = k" "Suc (Suc (4 * k)) div 4 = k"
    "Suc (4 * k) mod 4 = 1" "Suc (Suc (4 * k)) mod 4 = 2"
    by presburger+
  ultimately show ?thesis
    unfolding cp fillBytes_def using assms
    by (elim disjE) (simp_all add: nth_list_update)
qed

lemma similar_seed: "similar d w seed seed"
  by (simp add: similar_def sqDist_def)

lemma region_inBounds: "p \<in> region d w h seed \<Longrightarrow> inBounds w h p"
  by (induction rule: region.induct) simp_all

lemma region_similar: "p \<in> region d w h seed \<Longrightarrow> similar d w seed p"
  by (induction rule: region.induct) (simp_all add: similar_seed)

lemma pos_range:
  assumes "inBounds w h p" "length d = w * h * 4"
  shows "0 \<le> pixelIndexOf w p * 4" "pixelIndexOf w p * 4 + 3 < int (length d)"
  using idx_range [OF assms(1)] assms(2) by simp_all

lemma rd_pixel:
  assumes "inBounds w h p" "length d = w * h * 4"
  shows "rd d (pixelIndexOf w p * 4) = Some (uint (pixel d w p ! 0))"
    "rd d (pixelIndexOf w p * 4 + 1) = Some (uint (pixel d w p ! 1))"
    "rd d (pixelIndexOf w p * 4 + 2) = Some (uint (pixel d w p ! 2))"
    "rd d (pixelIndexOf w p * 4 + 3) = Some (uint (pixel d w p ! 3))"
  using pos_range [OF assms]
  by (simp_all add: rd_def pixel_def Let_def nat_add_distrib)

lemma matchColor_sqDist:
  assumes "inBounds w h (sx, sy)" "inBounds w h q" "length d0 = w * h * 4" "length d = w * h * 4"
  shows "matchColor (startColor d0 sx sy w) d (pixelIndexOf w q * 4)
         = (sqDist (pixel d w q) (pixel d0 w (sx, sy)) < 12000)"
proof -
  have s: "(sy * int w + sx) * 4 = pixelIndexOf w (sx, sy) * 4"
    by (simp add: pixelIndexOf_def)
  show ?thesis
    unfolding matchColor_def startColor_def Let_def s
    by (simp add: rd_pixel [OF assms(2,4)] rd_pixel [OF assms(1,3)] nsub_def nmul_def nadd_def
        nless_def sqDist_def power2_eq_square)
qed

lemma seenAt_wr:
  assumes "0 \<le> k" "k < int (length sn)"
  shows "seenAt (wr sn k 1) j = (j = k \<or> seenAt sn j)"
  using assms by (auto simp add: seenAt_def wr_def rd_def truthy_def nth_list_update)

lemma seenAt_range: "seenAt sn k \<Longrightarrow> 0 \<le> k \<and> k < int (length sn)"
  by (simp add: seenAt_def rd_def truthy_def split: if_splits)

lemma finite_unseen: "finite (unseen sn)"
proof -
  have "unseen sn \<subseteq> {0..<int (length sn)}" by (auto simp add: unseen_def)
  then show ?thesis by (rule finite_subset) simp
qed

lemma unseen_wr:
  assumes "0 \<le> k" "k < int (length sn)" "\<not> seenAt sn k"
  shows "card (unseen (wr sn k 1)) < card (unseen sn)"
proof -
  have "unseen (wr sn k 1) = unseen sn - {k}"
    using assms by (auto simp add: unseen_def seenAt_wr)
  moreover have "k \<in> unseen sn" using assms by (simp add: unseen_def)
  ultimately show ?thesis using finite_unseen [of sn]
    by (simp only: card_Diff1_less)
qed

lemma loopBody_skip:
  assumes "stack s = p # rest"
    and "\<not> (inBounds w h p \<and> \<not> seenAt (seen s) (pixelIndexOf w p)
            \<and> matchColor start (data s) (pixelIndexOf w p * 4))"
  shows "loopBody pushes w h start f s = s\<lparr>stack := rest\<rparr>"
  using assms
  by (cases p) (auto simp add: loopBody_def Let_def inBounds_def pixelIndexOf_def seenAt_def)

lemma loopBody_fill:
  assumes "stack s = p # rest" "inBounds w h p" "\<not> seenAt (seen s) (pixelIndexOf w p)"
    "matchColor start (data s) (pixelIndexOf w p * 4)"
  shows "loopBody pushes w h start f s =
     s\<lparr>stack := rev (pushes p) @ rest,
       data := colorPixel f (data s) (pixelIndexOf w p * 4),
       seen := wr (seen s) (pixelIndexOf w p) 1,
       marked := marked s @ [pixelIndexOf w p]\<rparr>"
  using assms
  by (cases p) (auto simp add: loopBody_def Let_def inBounds_def pixelIndexOf_def seenAt_def)

lemma inv_pop:
  assumes inv: "fillInv d0 w h sd f s" and st: "stack s = p # rest"
    and p: "p \<in> region d0 w h sd \<Longrightarrow> seenAt (seen s) (pixelIndexOf w p)"
    and sd: "inBounds w h sd"
  shows "fillInv d0 w h sd f (s\<lparr>stack := rest\<rparr>)"
proof -
  have nb: "seenAt (seen s) (pixelIndexOf w q) \<or> q \<in> set rest"
    if "inBounds w h a" "seenAt (seen s) (pixelIndexOf w a)" "q \<in> set (neighbours a)"
      "q \<in> region d0 w h sd" for a q
  proof -
    from inv that have "seenAt (seen s) (pixelIndexOf w q) \<or> q \<in> set (stack s)"
      unfolding fillInv_def by blast
    then show ?thesis using st p that(4) by auto
  qed
  have "seenAt (seen s) (pixelIndexOf w sd) \<or> sd \<in> set (stack s)"
    using inv unfolding fillInv_def by blast
  then have s6: "seenAt (seen s) (pixelIndexOf w sd) \<or> sd \<in> set rest"
    using st p region.seed [OF sd, of d0] by auto
  have s7: "\<forall>q\<in>set rest. inBounds w h q \<and> similar d0 w sd q \<longrightarrow> q \<in> region d0 w h sd"
    using inv st unfolding fillInv_def by simp
  show ?thesis
    using inv nb s6 s7 unfolding fillInv_def by simp blast
qed

lemma inv_fill:
  assumes inv: "fillInv d0 w h sd f s" and st: "stack s = p # rest"
    and pb: "inBounds w h p" and ns: "\<not> seenAt (seen s) (pixelIndexOf w p)"
    and sim: "similar d0 w sd p"
    and len: "length d0 = w * h * 4"
    and ps: "set (pushes p) = set (neighbours p)"
  shows "fillInv d0 w h sd f
     (s\<lparr>stack := rev (pushes p) @ rest,
        data := colorPixel f (data s) (pixelIndexOf w p * 4),
        seen := wr (seen s) (pixelIndexOf w p) 1,
        marked := marked s @ [pixelIndexOf w p]\<rparr>)"
proof -
  let ?k = "pixelIndexOf w p"
  let ?sn = "wr (seen s) ?k 1"
  have l1: "length (data s) = length d0" and l2: "length (seen s) = w * h"
    using inv unfolding fillInv_def by simp_all
  have kr: "0 \<le> ?k" "?k < int (length (seen s))"
    using idx_range [OF pb] l2 by simp_all
  have sn: "seenAt ?sn j = (j = ?k \<or> seenAt (seen s) j)" for j
    using kr by (rule seenAt_wr)
  have preg: "p \<in> region d0 w h sd"
    using inv st pb sim unfolding fillInv_def by simp
  have c3: "a \<in> region d0 w h sd" if "inBounds w h a" "seenAt ?sn (pixelIndexOf w a)" for a
  proof (cases "pixelIndexOf w a = ?k")
    case True
    then have "a = p" using that(1) pb by (rule_tac idx_inj)
    then show ?thesis using preg by simp
  next
    case False
    then show ?thesis using that inv unfolding fillInv_def sn by blast
  qed
  obtain n where n: "?k = int n" using kr(1) by (metis nonneg_int_cases)
  have n4: "?k * 4 = int (4 * n)" using n by simp
  have nlen: "4 * n + 3 < length (data s)"
    using pos_range(2) [OF pb len] l1 n by simp
  have c4: "colorPixel f (data s) (?k * 4) ! i =
      (if seenAt ?sn (int (i div 4)) then fillBytes f ! (i mod 4) else d0 ! i)"
    if "i < length d0" for i
  proof -
    have old: "data s ! i = (if seenAt (seen s) (int (i div 4)) then fillBytes f ! (i mod 4) else d0 ! i)"
      using inv that unfolding fillInv_def by blast
    have "colorPixel f (data s) (int (4 * n)) ! i =
        (if i div 4 = n then fillBytes f ! (i mod 4) else data s ! i)"
      by (rule colorPixel_nth) (use that l1 nlen in simp_all)
    then show ?thesis unfolding n4 sn using old n by auto
  qed
  have c5: "seenAt ?sn (pixelIndexOf w q) \<or> q \<in> set (rev (pushes p) @ rest)"
    if "inBounds w h a" "seenAt ?sn (pixelIndexOf w a)" "q \<in> set (neighbours a)"
      "q \<in> region d0 w h sd" for a q
  proof (cases "pixelIndexOf w a = ?k")
    case True
    then have "a = p" using that(1) pb by (rule_tac idx_inj)
    then show ?thesis using that(3) ps by simp
  next
    case False
    then have "seenAt (seen s) (pixelIndexOf w a)" using that(2) unfolding sn by simp
    then have "seenAt (seen s) (pixelIndexOf w q) \<or> q \<in> set (stack s)"
      using inv that unfolding fillInv_def by blast
    then show ?thesis unfolding sn using st by auto
  qed
  have "seenAt (seen s) (pixelIndexOf w sd) \<or> sd \<in> set (stack s)"
    using inv unfolding fillInv_def by blast
  then have c6: "seenAt ?sn (pixelIndexOf w sd) \<or> sd \<in> set (rev (pushes p) @ rest)"
    unfolding sn using st by auto
  have c7: "q \<in> region d0 w h sd"
    if "q \<in> set (rev (pushes p) @ rest)" "inBounds w h q" "similar d0 w sd q" for q
  proof (cases "q \<in> set rest")
    case True
    then show ?thesis using inv st that unfolding fillInv_def by simp
  next
    case False
    then have "q \<in> set (neighbours p)" using that(1) ps by simp
    then show ?thesis using preg that by (rule_tac region.step)
  qed
  have m: "distinct (marked s)" "set (marked s) = {k. seenAt (seen s) k}"
    using inv unfolding fillInv_def by simp_all
  have c8: "distinct (marked s @ [?k])" using m ns by simp
  have c9: "set (marked s @ [?k]) = {k. seenAt ?sn k}"
    unfolding sn using m by auto
  show ?thesis
    unfolding fillInv_def using l1 l2 c3 c4 c5 c6 c7 c8 c9
    by (simp del: set_append set_rev) blast
qed

lemma pixel_eq_nth:
  assumes "inBounds w h p" "length d = w * h * 4" "length d' = w * h * 4"
  shows "(pixel d' w p = pixel d w p)
    = (\<forall>i<length d. int (i div 4) = pixelIndexOf w p \<longrightarrow> d' ! i = d ! i)"
proof -
  obtain n where n: "pixelIndexOf w p = int n"
    using idx_range [OF assms(1)] by (metis nonneg_int_cases)
  have r: "4 * n + 3 < length d"
    using pos_range(2) [OF assms(1,2)] n by simp
  have pos: "nat (int n * 4) = 4 * n" by simp
  have "(\<forall>i<length d. i div 4 = n \<longrightarrow> d' ! i = d ! i)
      = (d' ! (4 * n) = d ! (4 * n) \<and> d' ! (4 * n + 1) = d ! (4 * n + 1)
         \<and> d' ! (4 * n + 2) = d ! (4 * n + 2) \<and> d' ! (4 * n + 3) = d ! (4 * n + 3))"
    (is "?L = ?R")
  proof
    assume l: ?L
    have "(4 * n) div 4 = n" "(4 * n + 1) div 4 = n" "(4 * n + 2) div 4 = n" "(4 * n + 3) div 4 = n"
      by presburger+
    moreover have "4 * n < length d" "4 * n + 1 < length d" "4 * n + 2 < length d"
      using r by simp_all
    ultimately show ?R using l r by blast
  next
    assume rr: ?R
    show ?L
    proof (intro allI impI)
      fix i assume "i < length d" "i div 4 = n"
      then have "i = 4 * n \<or> i = 4 * n + 1 \<or> i = 4 * n + 2 \<or> i = 4 * n + 3" by presburger
      then show "d' ! i = d ! i" using rr by blast
    qed
  qed
  then show ?thesis unfolding pixel_def Let_def n pos by simp
qed

lemma pixel_unseen:
  assumes inv: "fillInv d0 w h sd f s" and pb: "inBounds w h p"
    and len: "length d0 = w * h * 4"
  shows "pixel (data s) w p =
    (if seenAt (seen s) (pixelIndexOf w p) then fillBytes f else pixel d0 w p)"
proof -
  have l1: "length (data s) = w * h * 4" using inv len unfolding fillInv_def by simp
  have d: "\<forall>i<length d0. data s ! i =
            (if seenAt (seen s) (int (i div 4)) then fillBytes f ! (i mod 4) else d0 ! i)"
    using inv unfolding fillInv_def by blast
  show ?thesis
  proof (cases "seenAt (seen s) (pixelIndexOf w p)")
    case False
    then have "pixel (data s) w p = pixel d0 w p"
      unfolding pixel_eq_nth [OF pb len l1] using d by simp
    then show ?thesis using False by simp
  next
    case True
    obtain n where n: "pixelIndexOf w p = int n"
      using idx_range [OF pb] by (metis nonneg_int_cases)
    have r: "4 * n + 3 < length d0"
      using pos_range(2) [OF pb len] n by simp
    have pos: "nat (int n * 4) = 4 * n" by simp
    have dv: "(4 * n) div 4 = n" "(4 * n + 1) div 4 = n" "(4 * n + 2) div 4 = n" "(4 * n + 3) div 4 = n"
      and md: "(4 * n) mod 4 = 0" "(4 * n + 1) mod 4 = 1" "(4 * n + 2) mod 4 = 2" "(4 * n + 3) mod 4 = 3"
      by presburger+
    have i: "4 * n < length d0" "4 * n + 1 < length d0" "4 * n + 2 < length d0"
      using r by simp_all
    have "data s ! (4 * n) = fillBytes f ! 0" "data s ! (4 * n + 1) = fillBytes f ! 1"
      "data s ! (4 * n + 2) = fillBytes f ! 2" "data s ! (4 * n + 3) = fillBytes f ! 3"
      using d [rule_format, OF i(1)] d [rule_format, OF i(2)] d [rule_format, OF i(3)]
        d [rule_format, OF r] True
      unfolding dv md n by simp_all
    then have "pixel (data s) w p = fillBytes f"
      unfolding pixel_def Let_def n pos by (simp add: fillBytes_def)
    then show ?thesis using True by simp
  qed
qed

lemma loopBody_step:
  assumes inv: "fillInv d0 w h (sx, sy) f s" and ne: "stack s \<noteq> []"
    and len: "length d0 = w * h * 4" and sd: "inBounds w h (sx, sy)"
    and ps: "\<forall>p. set (pushes p) = set (neighbours p)"
  shows "fillInv d0 w h (sx, sy) f (loopBody pushes w h (startColor d0 sx sy w) f s)
    \<and> (loopBody pushes w h (startColor d0 sx sy w) f s, s)
        \<in> measures [\<lambda>s. card (unseen (seen s)), \<lambda>s. length (stack s)]"
proof -
  let ?start = "startColor d0 sx sy w"
  obtain p rest where st: "stack s = p # rest" using ne by (cases "stack s") auto
  have l1: "length (data s) = w * h * 4" and l2: "length (seen s) = w * h"
    using inv len unfolding fillInv_def by simp_all
  show ?thesis
  proof (cases "inBounds w h p \<and> \<not> seenAt (seen s) (pixelIndexOf w p)
            \<and> matchColor ?start (data s) (pixelIndexOf w p * 4)")
    case True
    then have pb: "inBounds w h p" and ns: "\<not> seenAt (seen s) (pixelIndexOf w p)"
      and mc: "matchColor ?start (data s) (pixelIndexOf w p * 4)" by simp_all
    have px: "pixel (data s) w p = pixel d0 w p"
      using pixel_unseen [OF inv pb len] ns by simp
    have sim: "similar d0 w (sx, sy) p"
      using mc unfolding matchColor_sqDist [OF sd pb len l1] px similar_def .
    have lb: "loopBody pushes w h ?start f s =
       s\<lparr>stack := rev (pushes p) @ rest,
         data := colorPixel f (data s) (pixelIndexOf w p * 4),
         seen := wr (seen s) (pixelIndexOf w p) 1,
         marked := marked s @ [pixelIndexOf w p]\<rparr>"
      using st pb ns mc by (rule loopBody_fill)
    have kr: "0 \<le> pixelIndexOf w p" "pixelIndexOf w p < int (length (seen s))"
      using idx_range [OF pb] l2 by simp_all
    have "card (unseen (wr (seen s) (pixelIndexOf w p) 1)) < card (unseen (seen s))"
      using kr ns by (rule unseen_wr)
    moreover have "fillInv d0 w h (sx, sy) f (loopBody pushes w h ?start f s)"
      unfolding lb using inv st pb ns sim len ps [rule_format] by (rule inv_fill)
    ultimately show ?thesis unfolding lb by simp
  next
    case False
    then have lb: "loopBody pushes w h ?start f s = s\<lparr>stack := rest\<rparr>"
      using st by (rule_tac loopBody_skip)
    have "seenAt (seen s) (pixelIndexOf w p)" if r: "p \<in> region d0 w h (sx, sy)"
    proof (rule ccontr)
      assume ns: "\<not> seenAt (seen s) (pixelIndexOf w p)"
      have pb: "inBounds w h p" using r by (rule region_inBounds)
      have px: "pixel (data s) w p = pixel d0 w p"
        using pixel_unseen [OF inv pb len] ns by simp
      have "similar d0 w (sx, sy) p" using r by (rule region_similar)
      then have "matchColor ?start (data s) (pixelIndexOf w p * 4)"
        unfolding matchColor_sqDist [OF sd pb len l1] px similar_def .
      then show False using False pb ns by simp
    qed
    then have "fillInv d0 w h (sx, sy) f (loopBody pushes w h ?start f s)"
      unfolding lb using inv st sd by (rule_tac inv_pop)
    then show ?thesis unfolding lb using st by simp
  qed
qed

lemma fillLoop_total:
  assumes len: "length d0 = w * h * 4" and sd: "inBounds w h (sx, sy)"
    and ps: "\<forall>p. set (pushes p) = set (neighbours p)"
    and inv: "fillInv d0 w h (sx, sy) f s"
  shows "\<exists>s'. fillLoop pushes w h (startColor d0 sx sy w) f s = Some s'
            \<and> fillInv d0 w h (sx, sy) f s' \<and> stack s' = []"
  using inv
proof (induction s rule: wf_induct_rule [OF wf_measures [of "[\<lambda>s. card (unseen (seen s)), \<lambda>s. length (stack s)]"]])
  case (1 s)
  show ?case
  proof (cases "stack s = []")
    case True
    then show ?thesis using "1.prems" by (subst fillLoop.simps) simp
  next
    case False
    from loopBody_step [OF "1.prems" False len sd ps]
    have "\<exists>s'. fillLoop pushes w h (startColor d0 sx sy w) f
              (loopBody pushes w h (startColor d0 sx sy w) f s) = Some s'
            \<and> fillInv d0 w h (sx, sy) f s' \<and> stack s' = []"
      using "1.IH" by blast
    then show ?thesis using False by (subst fillLoop.simps) simp
  qed
qed

lemma initState_inv:
  assumes len: "length d0 = w * h * 4" and sd: "inBounds w h (sx, sy)"
  shows "fillInv d0 w h (sx, sy) f (initState d0 sx sy w h)"
proof -
  have "\<not> seenAt (replicate n 0) k" for k n
    by (auto simp add: seenAt_def rd_def truthy_def nat_less_iff)
  then show ?thesis
    unfolding fillInv_def initState_def using region.seed [OF sd] by simp
qed

lemma final_seen:
  assumes inv: "fillInv d0 w h sd f s" and e: "stack s = []" and pb: "inBounds w h p"
  shows "seenAt (seen s) (pixelIndexOf w p) = (p \<in> region d0 w h sd)"
proof
  assume "seenAt (seen s) (pixelIndexOf w p)"
  then show "p \<in> region d0 w h sd" using inv pb unfolding fillInv_def by blast
next
  assume "p \<in> region d0 w h sd"
  then show "seenAt (seen s) (pixelIndexOf w p)"
  proof (induction rule: region.induct)
    case seed
    then show ?case using inv e unfolding fillInv_def by simp
  next
    case (step a q)
    have "inBounds w h a" using step.hyps(1) by (rule region_inBounds)
    moreover have "q \<in> region d0 w h sd"
      using step.hyps by (rule_tac region.step)
    moreover have "seenAt (seen s) (pixelIndexOf w q) \<or> q \<in> set (stack s)"
      if "inBounds w h a" "seenAt (seen s) (pixelIndexOf w a)" "q \<in> set (neighbours a)"
        "q \<in> region d0 w h sd"
      using inv that unfolding fillInv_def by blast
    ultimately show ?case using e step.IH step.hyps(2) by simp
  qed
qed

lemma fillRun_result:
  assumes len: "length d0 = w * h * 4" and sd: "inBounds w h (sx, sy)"
    and ps: "\<forall>p. set (pushes p) = set (neighbours p)"
  shows "\<exists>s'. fillRun pushes d0 sx sy hex w h = Some s'
      \<and> fillInv d0 w h (sx, sy) (parseFill hex) s' \<and> stack s' = []"
  unfolding fillRun_def
  using len sd ps initState_inv [OF len sd] by (rule fillLoop_total)

lemma idx_surj:
  assumes "k < w * h"
  shows "\<exists>p. inBounds w h p \<and> pixelIndexOf w p = int k"
proof -
  have w: "0 < w" using assms by (cases w) simp_all
  have "k div w < h" using assms by (simp add: less_mult_imp_div_less mult.commute)
  moreover have "k mod w < w" using w by simp
  moreover have "int (k div w) * int w + int (k mod w) = int k"
    by (metis div_mult_mod_eq of_nat_add of_nat_mult)
  ultimately have "inBounds w h (int (k mod w), int (k div w))
      \<and> pixelIndexOf w (int (k mod w), int (k div w)) = int k"
    by (simp add: inBounds_def pixelIndexOf_def)
  then show ?thesis by blast
qed

lemma buffer_eqI:
  assumes l1: "length d1 = w * h * 4" and l2: "length d2 = w * h * 4"
    and px: "\<And>p. inBounds w h p \<Longrightarrow> pixel d1 w p = pixel d2 w p"
  shows "d1 = d2"
proof (rule nth_equalityI)
  show "length d1 = length d2" using l1 l2 by simp
next
  fix i assume i: "i < length d1"
  then have "i div 4 < w * h" using l1 by simp
  then obtain p where p: "inBounds w h p" "pixelIndexOf w p = int (i div 4)"
    using idx_surj by blast
  have "pixel d1 w p = pixel d2 w p" using p(1) by (rule px)
  then show "d1 ! i = d2 ! i"
    unfolding pixel_eq_nth [OF p(1) l2 l1] using i l1 l2 p(2) by simp
qed

lemma sameColor_channels:
  assumes "inBounds w h (sx, sy)" "length d = w * h * 4"
  shows "sameColor (startColor d sx sy w) (parseFill hex)
    = (channels (pixel d w (sx, sy)) = targetColor hex)"
proof -
  have s: "(sy * int w + sx) * 4 = pixelIndexOf w (sx, sy) * 4"
    by (simp add: pixelIndexOf_def)
  have e: "strictEq (Some x) b = (Some x = b)" for x b
    by (cases b) (simp_all add: strictEq_def)
  show ?thesis
    unfolding sameColor_def startColor_def Let_def s
    by (simp add: rd_pixel [OF assms] e channels_def targetColor_def Let_def pixel_def)
qed

lemma fill_final:
  assumes len: "length d0 = w * h * 4" and sd: "inBounds w h (sx, sy)"
    and ps: "\<forall>p. set (pushes p) = set (neighbours p)"
  shows "\<exists>s'. fillRun pushes d0 sx sy hex w h = Some s' \<and> stack s' = []
      \<and> length (data s') = length d0 \<and> length (seen s') = w * h
      \<and> (\<forall>p. inBounds w h p \<longrightarrow>
            seenAt (seen s') (pixelIndexOf w p) = (p \<in> region d0 w h (sx, sy)))
      \<and> (\<forall>p. inBounds w h p \<longrightarrow> pixel (data s') w p =
            (if p \<in> region d0 w h (sx, sy) then fillBytes (parseFill hex) else pixel d0 w p))
      \<and> distinct (marked s') \<and> set (marked s') = {k. seenAt (seen s') k}"
proof -
  obtain s' where r: "fillRun pushes d0 sx sy hex w h = Some s'"
    and inv: "fillInv d0 w h (sx, sy) (parseFill hex) s'" and e: "stack s' = []"
    using fillRun_result [OF len sd ps] by blast
  have "pixel (data s') w p =
      (if p \<in> region d0 w h (sx, sy) then fillBytes (parseFill hex) else pixel d0 w p)"
    if "inBounds w h p" for p
    using pixel_unseen [OF inv that len] final_seen [OF inv e that] by simp
  moreover have "length (data s') = length d0" "length (seen s') = w * h"
    "distinct (marked s')" "set (marked s') = {k. seenAt (seen s') k}"
    using inv unfolding fillInv_def by simp_all
  ultimately show ?thesis using r e final_seen [OF inv e] by simp
qed

lemma floodFillOrd_fill:
  assumes len: "length d0 = w * h * 4" and wh: "0 < w" "0 < h" and sd: "inBounds w h (sx, sy)"
    and ps: "\<forall>p. set (pushes p) = set (neighbours p)"
    and ne: "channels (pixel d0 w (sx, sy)) \<noteq> targetColor hex"
  shows "\<exists>d'. floodFillOrd pushes d0 sx sy hex w h = Some (Inr d') \<and> length d' = length d0
      \<and> (\<forall>p. inBounds w h p \<longrightarrow> pixel d' w p =
            (if p \<in> region d0 w h (sx, sy) then fillBytes (parseFill hex) else pixel d0 w p))"
proof -
  obtain s' where "fillRun pushes d0 sx sy hex w h = Some s'" "length (data s') = length d0"
    "\<forall>p. inBounds w h p \<longrightarrow> pixel (data s') w p =
            (if p \<in> region d0 w h (sx, sy) then fillBytes (parseFill hex) else pixel d0 w p)"
    using fill_final [OF len sd ps] by blast
  then show ?thesis
    unfolding floodFillOrd_def using wh ne sameColor_channels [OF sd len] by simp
qed

lemma hexVal_range: "hexVal c = Some x \<Longrightarrow> 0 \<le> x \<and> x < 16"
  by (auto simp add: hexVal_def Let_def split: if_splits)

lemma parseInt16_two:
  assumes "hexVal a = Some x" "hexVal b = Some y"
  shows "parseInt16 [a, b] = Some (x * 16 + y)"
proof -
  have na: "\<not> isWhiteSpace a" "a \<noteq> CHR ''-''" "a \<noteq> CHR ''+''"
    using assms(1) by (auto simp add: hexVal_def isWhiteSpace_def Let_def split: if_splits)
  have nb: "b \<noteq> CHR ''x''" "b \<noteq> CHR ''X''"
    using assms(2) by (auto simp add: hexVal_def Let_def split: if_splits)
  show ?thesis unfolding parseInt16_def Let_def using na nb assms by simp
qed

lemma toUint8Clamp_byte: "0 \<le> n \<Longrightarrow> n \<le> 255 \<Longrightarrow> uint (toUint8Clamp (Some n)) = n"
  by (simp add: toUint8Clamp_def uint_word_of_int take_bit_int_eq_self)

lemma hexColor_channels:
  assumes "isHexColor hex"
  shows "channels (fillBytes (parseFill hex)) = targetColor hex"
proof -
  obtain c ds where h: "hex = c # ds" "c = CHR ''#''" "length ds = 6"
    "list_all (\<lambda>c. hexVal c \<noteq> None) ds"
    using assms unfolding isHexColor_def by (cases hex) auto
  obtain c1 c2 c3 c4 c5 c6 where ds: "ds = [c1, c2, c3, c4, c5, c6]"
    using h(3) by (auto simp add: length_Suc_conv eval_nat_numeral)
  obtain v1 v2 v3 v4 v5 v6 where v: "hexVal c1 = Some v1" "hexVal c2 = Some v2"
    "hexVal c3 = Some v3" "hexVal c4 = Some v4" "hexVal c5 = Some v5" "hexVal c6 = Some v6"
    using h(4) ds by auto
  have pf: "parseFill hex = \<lparr>chR = Some (v1 * 16 + v2), chG = Some (v3 * 16 + v4),
      chB = Some (v5 * 16 + v6), chA = Some 255\<rparr>"
    unfolding parseFill_def replaceHash_def substring_def Let_def h(1,2) ds
    by (simp add: parseInt16_two v)
  have r: "0 \<le> v1 * 16 + v2 \<and> v1 * 16 + v2 \<le> 255" "0 \<le> v3 * 16 + v4 \<and> v3 * 16 + v4 \<le> 255"
    "0 \<le> v5 * 16 + v6 \<and> v5 * 16 + v6 \<le> 255"
    using v [THEN hexVal_range] by auto
  show ?thesis
    unfolding channels_def fillBytes_def targetColor_def Let_def pf
    using r by (simp add: toUint8Clamp_byte)
qed

lemma fillRun_out_of_bounds:
  assumes "\<not> inBounds w h (sx, sy)"
  shows "fillRun pushes d sx sy hex w h
    = Some \<lparr>stack = [], data = d, seen = replicate (w * h) 0, marked = []\<rparr>"
proof -
  let ?s = "initState d sx sy w h"
  have "loopBody pushes w h (startColor d sx sy w) (parseFill hex) ?s = ?s\<lparr>stack := []\<rparr>"
    by (rule loopBody_skip) (use assms in \<open>auto simp add: initState_def\<close>)
  then show ?thesis
    unfolding fillRun_def
    by (subst fillLoop.simps, subst fillLoop.simps) (simp add: initState_def)
qed

lemma pixel_colorPixel:
  assumes "inBounds w h p" "length d = w * h * 4"
  shows "pixel (colorPixel f d (pixelIndexOf w p * 4)) w p = fillBytes f"
proof -
  obtain n where n: "pixelIndexOf w p = int n"
    using idx_range [OF assms(1)] by (metis nonneg_int_cases)
  have r: "4 * n + 3 < length d"
    using pos_range(2) [OF assms] n by simp
  have pos: "nat (int n * 4) = 4 * n" and pos': "int n * 4 = int (4 * n)" by simp_all
  have i: "4 * n < length d" "4 * n + 1 < length d" "4 * n + 2 < length d"
    using r by simp_all
  have dv: "(4 * n) div 4 = n" "(4 * n + 1) div 4 = n" "(4 * n + 2) div 4 = n" "(4 * n + 3) div 4 = n"
    and md: "(4 * n) mod 4 = 0" "(4 * n + 1) mod 4 = 1" "(4 * n + 2) mod 4 = 2" "(4 * n + 3) mod 4 = 3"
    by presburger+
  show ?thesis
    unfolding pixel_def Let_def n pos
    unfolding pos' colorPixel_nth [OF i(1) r] colorPixel_nth [OF i(2) r]
      colorPixel_nth [OF i(3) r] colorPixel_nth [OF r r] dv md
    by (simp add: fillBytes_def)
qed

lemma floodFillOrd_out_of_bounds:
  assumes "0 < w" "0 < h" "\<not> inBounds w h (sx, sy)"
  shows "floodFillOrd pushes d sx sy hex w h = Some (Inr d)"
  unfolding floodFillOrd_def fillRun_out_of_bounds [OF assms(3)] using assms(1,2) by simp

lemma floodFillOrd_same:
  assumes "0 < w" "0 < h" "inBounds w h (sx, sy)" "length d = w * h * 4"
    "channels (pixel d w (sx, sy)) = targetColor hex"
  shows "floodFillOrd pushes d sx sy hex w h = Some (Inr d)"
  unfolding floodFillOrd_def using assms sameColor_channels [OF assms(3,4)] by simp

lemma mark_count:
  assumes "distinct ms" "set ms = {k. seenAt sn k}"
  shows "length ms \<le> length sn"
proof -
  have "set ms \<subseteq> {0..<int (length sn)}"
    using assms(2) seenAt_range by auto
  then have "card (set ms) \<le> card {0..<int (length sn)}"
    by (rule card_mono [rotated]) simp
  then show ?thesis using assms(1) by (simp add: distinct_card)
qed

text \<open>
  Claim C5. For every buffer (positive width and height, four bytes per pixel) and every
  seed coordinate outside \<open>[0, width) \<times> [0, height)\<close>, \<open>floodFill\<close> returns
  normally (no error is raised) and the pixel data it puts back is the data it read:
  every byte is unchanged. This holds whether or not the bytes at the computed start
  position, which may fall inside the array for a seed outside the grid, equal the fill
  colour.
\<close>

theorem floodFill_seed_out_of_bounds:
  assumes "wfBuffer d width height" "\<not> inBounds width height (startX, startY)"
  shows "floodFill d startX startY fillColorHex width height = Some (Inr d)"
  unfolding floodFill_def
  using assms by (simp add: wfBuffer_def floodFillOrd_out_of_bounds)

text \<open>
  Claim C4. For every buffer and in-bounds seed, if the four channels of the seed pixel
  are equal to the parsed fill colour, with its alpha taken as 255, then \<open>floodFill\<close>
  returns the buffer byte-identical.
\<close>

theorem floodFill_same_color_noop:
  assumes "wfBuffer d width height" "inBounds width height (startX, startY)"
    "channels (pixel d width (startX, startY)) = targetColor fillColorHex"
  shows "floodFill d startX startY fillColorHex width height = Some (Inr d)"
  unfolding floodFill_def
  using assms by (simp add: wfBuffer_def floodFillOrd_same)

text \<open>
  Claim C1. For every buffer, in-bounds seed and fill colour that differs from the seed
  pixel's colour, \<open>floodFill\<close> returns a buffer of the same size in which exactly the
  pixels of \<open>region\<close> carry the fill colour and every other pixel keeps its bytes;
  \<open>region\<close> is the set of pixels reachable from the seed by steps to an axis-aligned
  neighbour that is in bounds and whose original colour is at squared distance below
  12000 from the seed's original colour. The result is the same for every order in
  which the four neighbours are pushed: any \<open>pushes\<close> that permutes \<open>neighbours\<close>
  gives the same buffer.
\<close>

theorem floodFill_fills_region:
  assumes "wfBuffer d width height" "inBounds width height (startX, startY)"
    "channels (pixel d width (startX, startY)) \<noteq> targetColor fillColorHex"
  shows "\<exists>d'. floodFill d startX startY fillColorHex width height = Some (Inr d')
      \<and> length d' = length d
      \<and> (\<forall>p. inBounds width height p \<longrightarrow> pixel d' width p =
            (if p \<in> region d width height (startX, startY)
             then fillBytes (parseFill fillColorHex) else pixel d width p))
      \<and> (\<forall>pushes. (\<forall>p. mset (pushes p) = mset (neighbours p)) \<longrightarrow>
            floodFillOrd pushes d startX startY fillColorHex width height = Some (Inr d'))"
proof -
  have len: "length d = width * height * 4" and wh: "0 < width" "0 < height"
    using assms(1) by (simp_all add: wfBuffer_def)
  have any: "\<exists>d'. floodFillOrd pushes d startX startY fillColorHex width height = Some (Inr d')
      \<and> length d' = length d
      \<and> (\<forall>p. inBounds width height p \<longrightarrow> pixel d' width p =
            (if p \<in> region d width height (startX, startY)
             then fillBytes (parseFill fillColorHex) else pixel d width p))"
    if "\<forall>p. set (pushes p) = set (neighbours p)" for pushes
    using len wh assms(2) that assms(3) by (rule floodFillOrd_fill)
  obtain d' where d': "floodFillOrd neighbours d startX startY fillColorHex width height = Some (Inr d')"
    "length d' = length d"
    "\<forall>p. inBounds width height p \<longrightarrow> pixel d' width p =
            (if p \<in> region d width height (startX, startY)
             then fillBytes (parseFill fillColorHex) else pixel d width p)"
    using any [of neighbours] by auto
  have "floodFillOrd pushes d startX startY fillColorHex width height = Some (Inr d')"
    if ms: "\<forall>p. mset (pushes p) = mset (neighbours p)" for pushes
  proof -
    have "\<forall>p. set (pushes p) = set (neighbours p)"
      using ms by (metis set_mset_mset)
    then obtain e where e: "floodFillOrd pushes d startX startY fillColorHex width height = Some (Inr e)"
      "length e = length d"
      "\<forall>p. inBounds width height p \<longrightarrow> pixel e width p =
            (if p \<in> region d width height (startX, startY)
             then fillBytes (parseFill fillColorHex) else pixel d width p)"
      using any [of pushes] by auto
    have "pixel e width p = pixel d' width p" if "inBounds width height p" for p
      using e(3) [rule_format, OF that] d'(3) [rule_format, OF that] by simp
    moreover have "length e = width * height * 4" "length d' = width * height * 4"
      using e(2) d'(2) len by simp_all
    ultimately have "e = d'"
      by (rule_tac buffer_eqI [of _ width height])
    then show ?thesis using e(1) by simp
  qed
  then show ?thesis using d' unfolding floodFill_def by blast
qed

text \<open>
  Claim C2. For every buffer with width and height at least 1 and every in-bounds seed,
  the work loop terminates (it returns a final state, with the stack empty), no pixel
  index is marked twice (the log of the writes \<open>seen[pixelIndex] = 1\<close> is distinct and
  lists exactly the marked entries of the final marker grid), and the number of marks is
  at most \<open>width * height\<close>. Hence \<open>floodFill\<close> itself returns.
\<close>

theorem floodFill_loop_terminates:
  assumes "wfBuffer d width height" "inBounds width height (startX, startY)"
  shows "\<exists>s'. fillRun neighbours d startX startY fillColorHex width height = Some s'
      \<and> stack s' = []
      \<and> distinct (marked s') \<and> set (marked s') = {k. seenAt (seen s') k}
      \<and> length (marked s') \<le> width * height
      \<and> (\<exists>d'. floodFill d startX startY fillColorHex width height = Some (Inr d'))"
proof -
  have len: "length d = width * height * 4" and wh: "0 < width" "0 < height"
    using assms(1) by (simp_all add: wfBuffer_def)
  obtain s' where s': "fillRun neighbours d startX startY fillColorHex width height = Some s'"
    "stack s' = []" "length (seen s') = width * height"
    "distinct (marked s')" "set (marked s') = {k. seenAt (seen s') k}"
    using fill_final [OF len assms(2), of neighbours fillColorHex] by auto
  have "length (marked s') \<le> width * height"
    using mark_count [OF s'(4,5)] s'(3) by simp
  moreover have "\<exists>d'. floodFill d startX startY fillColorHex width height = Some (Inr d')"
    unfolding floodFill_def floodFillOrd_def using wh s'(1) by simp
  ultimately show ?thesis using s' by blast
qed

text \<open>
  Claim C10. After any call of \<open>floodFill\<close> on a buffer with a fill colour of the form
  \<open>#rrggbb\<close>, whatever the seed, the call returns, and every pixel of the result is
  either byte-identical to the pixel before the call or has exactly the channels
  \<open>[r, g, b, 255]\<close> of the parsed fill colour.
\<close>

theorem floodFill_pixels_old_or_target:
  assumes "wfBuffer d width height" "isHexColor fillColorHex"
  shows "\<exists>d'. floodFill d startX startY fillColorHex width height = Some (Inr d')
      \<and> length d' = length d
      \<and> (\<forall>p. inBounds width height p \<longrightarrow>
            pixel d' width p = pixel d width p
            \<or> channels (pixel d' width p) = targetColor fillColorHex)"
proof -
  have len: "length d = width * height * 4" and wh: "0 < width" "0 < height"
    using assms(1) by (simp_all add: wfBuffer_def)
  have t: "channels (fillBytes (parseFill fillColorHex)) = targetColor fillColorHex"
    using assms(2) by (rule hexColor_channels)
  consider (out) "\<not> inBounds width height (startX, startY)"
    | (same) "inBounds width height (startX, startY)"
        "channels (pixel d width (startX, startY)) = targetColor fillColorHex"
    | (fill) "inBounds width height (startX, startY)"
        "channels (pixel d width (startX, startY)) \<noteq> targetColor fillColorHex"
    by blast
  then show ?thesis
  proof cases
    case out
    then have "floodFill d startX startY fillColorHex width height = Some (Inr d)"
      unfolding floodFill_def using wh by (simp add: floodFillOrd_out_of_bounds)
    then show ?thesis by simp
  next
    case same
    then have "floodFill d startX startY fillColorHex width height = Some (Inr d)"
      unfolding floodFill_def using wh len by (simp add: floodFillOrd_same)
    then show ?thesis by simp
  next
    case fill
    have "\<forall>p. set (neighbours p) = set (neighbours p)" by simp
    with len wh fill(1)
    obtain d' where "floodFillOrd neighbours d startX startY fillColorHex width height = Some (Inr d')"
      "length d' = length d"
      "\<forall>p. inBounds width height p \<longrightarrow> pixel d' width p =
            (if p \<in> region d width height (startX, startY)
             then fillBytes (parseFill fillColorHex) else pixel d width p)"
      using floodFillOrd_fill [OF _ _ _ _ _ fill(2)] by blast
    then show ?thesis unfolding floodFill_def using t by auto
  qed
qed

text \<open>
  Claim C3. In a loop iteration that pops an in-bounds pixel not yet marked, the test
  \<open>matchColor\<close> holds if and only if the sum over the four channels (alpha included)
  of the squared differences between the pixel's current colour and the reference colour
  is strictly below 12000. Below 12000 the pixel is overwritten with the fill colour,
  marked and its neighbours are pushed; at 12000 or more the pixel data, the marker grid
  and the log are left as they are. For the whole run: every pixel whose colour is at
  squared distance 12000 or more from the reference colour is unchanged and unmarked in
  the final state.
\<close>

theorem matchColor_threshold:
  assumes "wfBuffer d width height" "inBounds width height (startX, startY)"
    and "stack s = p # rest" "inBounds width height p"
    and "\<not> seenAt (seen s) (pixelIndexOf width p)"
    and "length (data s) = length d" "length (seen s) = width * height"
  shows "(let dist = sqDist (pixel (data s) width p) (pixel d width (startX, startY));
              s' = loopBody neighbours width height (startColor d startX startY width) f s
          in matchColor (startColor d startX startY width) (data s) (pixelIndexOf width p * 4)
               = (dist < 12000)
             \<and> (dist < 12000 \<longrightarrow>
                  pixel (data s') width p = fillBytes f
                  \<and> seenAt (seen s') (pixelIndexOf width p)
                  \<and> stack s' = rev (neighbours p) @ rest)
             \<and> (12000 \<le> dist \<longrightarrow>
                  data s' = data s \<and> seen s' = seen s \<and> marked s' = marked s \<and> stack s' = rest))
     \<and> (\<exists>sf. fillRun neighbours d startX startY fillColorHex width height = Some sf
           \<and> (\<forall>q. inBounds width height q
                 \<and> 12000 \<le> sqDist (pixel d width q) (pixel d width (startX, startY))
                 \<longrightarrow> pixel (data sf) width q = pixel d width q
                     \<and> \<not> seenAt (seen sf) (pixelIndexOf width q)))"
proof -
  let ?start = "startColor d startX startY width"
  let ?dist = "sqDist (pixel (data s) width p) (pixel d width (startX, startY))"
  let ?s' = "loopBody neighbours width height ?start f s"
  have len: "length d = width * height * 4"
    using assms(1) by (simp add: wfBuffer_def)
  have l1: "length (data s) = width * height * 4" using assms(6) len by simp
  have mc: "matchColor ?start (data s) (pixelIndexOf width p * 4) = (?dist < 12000)"
    using assms(2,4) len l1 by (rule matchColor_sqDist)
  have kr: "0 \<le> pixelIndexOf width p" "pixelIndexOf width p < int (length (seen s))"
    using idx_range [OF assms(4)] assms(7) by simp_all
  have yes: "pixel (data ?s') width p = fillBytes f \<and> seenAt (seen ?s') (pixelIndexOf width p)
      \<and> stack ?s' = rev (neighbours p) @ rest" if "?dist < 12000"
  proof -
    have "matchColor ?start (data s) (pixelIndexOf width p * 4)" using mc that by simp
    with assms(3,4,5) have "?s' =
       s\<lparr>stack := rev (neighbours p) @ rest,
         data := colorPixel f (data s) (pixelIndexOf width p * 4),
         seen := wr (seen s) (pixelIndexOf width p) 1,
         marked := marked s @ [pixelIndexOf width p]\<rparr>"
      by (rule loopBody_fill)
    then show ?thesis
      using pixel_colorPixel [OF assms(4) l1, of f] seenAt_wr [OF kr] by simp
  qed
  have no: "data ?s' = data s \<and> seen ?s' = seen s \<and> marked ?s' = marked s \<and> stack ?s' = rest"
    if "12000 \<le> ?dist"
  proof -
    have "\<not> matchColor ?start (data s) (pixelIndexOf width p * 4)" using mc that by simp
    then have "?s' = s\<lparr>stack := rest\<rparr>"
      using assms(3) by (rule_tac loopBody_skip) blast+
    then show ?thesis by simp
  qed
  have "\<forall>p. set (neighbours p) = set (neighbours p)" by simp
  with len assms(2)
  obtain sf where sf: "fillRun neighbours d startX startY fillColorHex width height = Some sf"
    "\<forall>p. inBounds width height p \<longrightarrow>
        seenAt (seen sf) (pixelIndexOf width p) = (p \<in> region d width height (startX, startY))"
    "\<forall>p. inBounds width height p \<longrightarrow> pixel (data sf) width p =
        (if p \<in> region d width height (startX, startY)
         then fillBytes (parseFill fillColorHex) else pixel d width p)"
    using fill_final [of d width height startX startY neighbours fillColorHex] by blast
  have "pixel (data sf) width q = pixel d width q \<and> \<not> seenAt (seen sf) (pixelIndexOf width q)"
    if q: "inBounds width height q"
      "12000 \<le> sqDist (pixel d width q) (pixel d width (startX, startY))" for q
  proof -
    have "q \<notin> region d width height (startX, startY)"
      using region_similar [of q d width height "(startX, startY)"] q(2)
      by (auto simp add: similar_def)
    then show ?thesis using sf(2) [rule_format, OF q(1)] sf(3) [rule_format, OF q(1)] by simp
  qed
  then show ?thesis using mc yes no sf(1) unfolding Let_def by blast
qed

theorem floodFill_seed_out_of_bounds_witness:
  "wfBuffer sampleBuffer 2 2 \<and> \<not> inBounds 2 2 (2, 0)
   \<and> floodFill sampleBuffer 2 0 ''#ff0000'' 2 2 = Some (Inr sampleBuffer)"
proof -
  have h1: "wfBuffer sampleBuffer 2 2" by code_simp
  have h2: "\<not> inBounds 2 2 (2, 0)" by code_simp
  show ?thesis using h1 h2 floodFill_seed_out_of_bounds [OF h1 h2] by simp
qed

theorem floodFill_same_color_noop_witness:
  "wfBuffer sampleBuffer 2 2 \<and> inBounds 2 2 (1, 0)
   \<and> channels (pixel sampleBuffer 2 (1, 0)) = targetColor ''#000000''
   \<and> floodFill sampleBuffer 1 0 ''#000000'' 2 2 = Some (Inr sampleBuffer)"
proof -
  have h1: "wfBuffer sampleBuffer 2 2" by code_simp
  have h2: "inBounds 2 2 (1, 0)" by code_simp
  have h3: "channels (pixel sampleBuffer 2 (1, 0)) = targetColor ''#000000''" by code_simp
  show ?thesis using h1 h2 h3 floodFill_same_color_noop [OF h1 h2 h3] by simp
qed

theorem floodFill_fills_region_witness:
  "wfBuffer sampleBuffer 2 2 \<and> inBounds 2 2 (0, 0)
   \<and> channels (pixel sampleBuffer 2 (0, 0)) \<noteq> targetColor ''#ff0000''
   \<and> floodFill sampleBuffer 0 0 ''#ff0000'' 2 2 = Some (Inr sampleFilled)
   \<and> (1, 1) \<in> region sampleBuffer 2 2 (0, 0)
   \<and> (1, 0) \<notin> region sampleBuffer 2 2 (0, 0)
   \<and> floodFillOrd (\<lambda>p. rev (neighbours p)) sampleBuffer 0 0 ''#ff0000'' 2 2
       = Some (Inr sampleFilled)"
proof -
  have h1: "wfBuffer sampleBuffer 2 2" by code_simp
  have h2: "inBounds 2 2 (0, 0)" by code_simp
  have h3: "channels (pixel sampleBuffer 2 (0, 0)) \<noteq> targetColor ''#ff0000''" by code_simp
  have ev: "floodFill sampleBuffer 0 0 ''#ff0000'' 2 2 = Some (Inr sampleFilled)" by code_simp
  from floodFill_fills_region [OF h1 h2 h3] ev
  have px: "\<forall>p. inBounds 2 2 p \<longrightarrow> pixel sampleFilled 2 p =
            (if p \<in> region sampleBuffer 2 2 (0, 0)
             then fillBytes (parseFill ''#ff0000'') else pixel sampleBuffer 2 p)"
    and ord: "\<forall>pushes. (\<forall>p. mset (pushes p) = mset (neighbours p)) \<longrightarrow>
            floodFillOrd pushes sampleBuffer 0 0 ''#ff0000'' 2 2 = Some (Inr sampleFilled)"
    by auto
  have a: "inBounds 2 2 (1, 1)" "pixel sampleFilled 2 (1, 1) \<noteq> pixel sampleBuffer 2 (1, 1)"
    by code_simp+
  have b: "inBounds 2 2 (1, 0)" "pixel sampleFilled 2 (1, 0) \<noteq> fillBytes (parseFill ''#ff0000'')"
    by code_simp+
  have r1: "(1, 1) \<in> region sampleBuffer 2 2 (0, 0)"
    using px [rule_format, OF a(1)] a(2) by (simp split: if_splits)
  have r2: "(1, 0) \<notin> region sampleBuffer 2 2 (0, 0)"
    using px [rule_format, OF b(1)] b(2) by (simp split: if_splits)
  have "\<forall>p. mset (rev (neighbours p)) = mset (neighbours p)" by simp
  then have r3: "floodFillOrd (\<lambda>p. rev (neighbours p)) sampleBuffer 0 0 ''#ff0000'' 2 2
       = Some (Inr sampleFilled)"
    using ord [rule_format, of "\<lambda>p. rev (neighbours p)"] by simp
  show ?thesis using h1 h2 h3 ev r1 r2 r3 by blast
qed

theorem floodFill_loop_terminates_witness:
  "wfBuffer sampleBuffer 2 2 \<and> inBounds 2 2 (0, 0)
   \<and> (\<exists>s'. fillRun neighbours sampleBuffer 0 0 ''#ff0000'' 2 2 = Some s'
         \<and> stack s' = [] \<and> marked s' = [0, 2, 3] \<and> distinct (marked s')
         \<and> length (marked s') \<le> 2 * 2)"
proof -
  have h1: "wfBuffer sampleBuffer 2 2" by code_simp
  have h2: "inBounds 2 2 (0, 0)" by code_simp
  have ev: "fillRun neighbours sampleBuffer 0 0 ''#ff0000'' 2 2 =
    Some \<lparr>stack = [], data = sampleFilled, seen = [1, 0, 1, 1], marked = [0, 2, 3]\<rparr>"
    by code_simp
  show ?thesis
    using h1 h2 floodFill_loop_terminates [OF h1 h2, of "''#ff0000''"] ev by auto
qed

theorem floodFill_pixels_old_or_target_witness:
  "wfBuffer sampleBuffer 2 2 \<and> isHexColor ''#ff0000''
   \<and> (\<exists>d'. floodFill sampleBuffer 0 0 ''#ff0000'' 2 2 = Some (Inr d')
         \<and> (pixel d' 2 (1, 1) = pixel sampleBuffer 2 (1, 1)
             \<or> channels (pixel d' 2 (1, 1)) = [Some 255, Some 0, Some 0, Some 255]))"
proof -
  have h1: "wfBuffer sampleBuffer 2 2" by code_simp
  have h2: "isHexColor ''#ff0000''" by code_simp
  have t: "targetColor ''#ff0000'' = [Some 255, Some 0, Some 0, Some 255]" by code_simp
  have a: "inBounds 2 2 (1, 1)" by code_simp
  show ?thesis
    using h1 h2 floodFill_pixels_old_or_target [OF h1 h2, of 0 0] a unfolding t by blast
qed

theorem matchColor_threshold_witness:
  "wfBuffer sampleBuffer 2 2 \<and> inBounds 2 2 (0, 0)
   \<and> stack (sampleState (1, 0)) = (1, 0) # [] \<and> inBounds 2 2 (1, 0)
   \<and> \<not> seenAt (seen (sampleState (1, 0))) (pixelIndexOf 2 (1, 0))
   \<and> length (data (sampleState (1, 0))) = length sampleBuffer
   \<and> length (seen (sampleState (1, 0))) = 2 * 2
   \<and> sqDist (pixel sampleBuffer 2 (1, 0)) (pixel sampleBuffer 2 (0, 0)) = 195075
   \<and> \<not> matchColor (startColor sampleBuffer 0 0 2) sampleBuffer (pixelIndexOf 2 (1, 0) * 4)
   \<and> data (loopBody neighbours 2 2 (startColor sampleBuffer 0 0 2) (parseFill ''#ff0000'')
             (sampleState (1, 0))) = sampleBuffer"
proof -
  have h1: "wfBuffer sampleBuffer 2 2" by code_simp
  have h2: "inBounds 2 2 (0, 0)" by code_simp
  have h3: "stack (sampleState (1, 0)) = (1, 0) # []" by code_simp
  have h4: "inBounds 2 2 (1, 0)" by code_simp
  have h5: "\<not> seenAt (seen (sampleState (1, 0))) (pixelIndexOf 2 (1, 0))" by code_simp
  have h6: "length (data (sampleState (1, 0))) = length sampleBuffer" by code_simp
  have h7: "length (seen (sampleState (1, 0))) = 2 * 2" by code_simp
  have dt: "data (sampleState (1, 0)) = sampleBuffer" by code_simp
  have ds: "sqDist (pixel sampleBuffer 2 (1, 0)) (pixel sampleBuffer 2 (0, 0)) = 195075"
    by code_simp
  show ?thesis
    using h1 h2 h3 h4 h5 h6 h7 ds
      matchColor_threshold [OF h1 h2 h3 h4 h5 h6 h7, of "parseFill ''#ff0000''" "''#ff0000''"]
    unfolding Let_def dt by simp
qed

text \<open>
  The effect runs again whenever \<open>history\<close> changes; with the trigger unchanged it
  returns at its guard.
\<close>

lemma undoEffect_again: "undoEffect (undoEffect c) = undoEffect c"
  by (simp add: undoEffect_def Let_def split: option.splits)

lemma history_saveHistory:
  "history (saveHistory c) =
     (if length (history c) < 20 then history c @ [bitmap c] else tl (history c @ [bitmap c]))"
  by (simp add: saveHistory_def Let_def)

lemma length_saveHistory:
  "length (history c) \<le> 20 \<Longrightarrow> length (history (saveHistory c)) \<le> 20"
  by (simp add: history_saveHistory)

lemma history_commit:
  assumes "length (history c) \<le> 20"
  shows "history (commit b c) = drop (length (history c) + 1 - 20) (history c @ [b])"
  using assms by (cases "history c") (auto simp add: commit_def history_saveHistory)

lemma history_commits:
  assumes "length (history c) \<le> 20"
  shows "history (commits bs c) = drop (length (history c) + length bs - 20) (history c @ bs)"
  using assms
proof (induction bs arbitrary: c)
  case Nil
  then show ?case by (simp add: commits_def)
next
  case (Cons b bs)
  let ?c = "commit b c"
  have h: "history ?c = drop (length (history c) + 1 - 20) (history c @ [b])"
    using Cons.prems by (rule history_commit)
  then have l: "length (history ?c) \<le> 20" using Cons.prems by simp
  have "history (commits (b # bs) c) = history (commits bs ?c)"
    by (simp add: commits_def)
  also have "\<dots> = drop (length (history ?c) + length bs - 20) (history ?c @ bs)"
    using l by (rule Cons.IH)
  also have "\<dots> = drop (length (history c) + length (b # bs) - 20) (history c @ b # bs)"
  proof (cases "length (history c) < 20")
    case True
    then show ?thesis unfolding h by simp
  next
    case False
    then have e: "length (history c) = 20" using Cons.prems by simp
    then obtain a as where as: "history c = a # as" by (cases "history c") auto
    show ?thesis unfolding h using e as by simp
  qed
  finally show ?case .
qed

lemma undo_cases:
  assumes "prevTriggerUndo c \<le> triggerUndo c"
  shows "undo c =
    (if length (history c) > 1
     then c\<lparr>triggerUndo := triggerUndo c + 1, prevTriggerUndo := triggerUndo c + 1,
            bitmap := last (butlast (history c)), history := butlast (history c)\<rparr>
     else c\<lparr>triggerUndo := triggerUndo c + 1, prevTriggerUndo := triggerUndo c + 1\<rparr>)"
proof -
  have "butlast (history c) \<noteq> []" if "length (history c) > 1"
    using that by (cases "history c") (auto split: if_splits)
  then show ?thesis using assms by (auto simp add: undo_def undoEffect_def Let_def)
qed

lemma undo_pow:
  assumes "prevTriggerUndo c \<le> triggerUndo c" "history c \<noteq> []"
  shows "prevTriggerUndo ((undo ^^ n) c) \<le> triggerUndo ((undo ^^ n) c)
    \<and> history ((undo ^^ n) c) = take (max 1 (length (history c) - n)) (history c)
    \<and> bitmap ((undo ^^ n) c) =
        (if n = 0 \<or> length (history c) = 1 then bitmap c
         else history c ! (max 1 (length (history c) - n) - 1))"
proof (induction n)
  case 0
  then show ?case using assms by simp
next
  case (Suc n)
  let ?c = "(undo ^^ n) c"
  let ?L = "length (history c)"
  have L: "1 \<le> ?L" using assms(2) by (cases "history c") simp_all
  have tr: "prevTriggerUndo ?c \<le> triggerUndo ?c"
    and hi: "history ?c = take (max 1 (?L - n)) (history c)"
    and bm: "bitmap ?c = (if n = 0 \<or> ?L = 1 then bitmap c else history c ! (max 1 (?L - n) - 1))"
    using Suc.IH by simp_all
  have len: "length (history ?c) = max 1 (?L - n)" unfolding hi using L by simp
  show ?case
  proof (cases "1 < ?L - n")
    case True
    have u: "undo ?c = ?c\<lparr>triggerUndo := triggerUndo ?c + 1, prevTriggerUndo := triggerUndo ?c + 1,
            bitmap := last (butlast (history ?c)), history := butlast (history ?c)\<rparr>"
      using undo_cases [OF tr] len True by simp
    have bl: "butlast (history ?c) = take (?L - Suc n) (history c)"
      unfolding hi using True by (simp add: butlast_take)
    have "take (?L - Suc n) (history c) \<noteq> []" using True by auto
    then have "last (take (?L - Suc n) (history c)) = history c ! (?L - Suc n - 1)"
      using True by (simp add: last_conv_nth)
    moreover have "?L \<noteq> 1" "max 1 (?L - Suc n) = ?L - Suc n" using True by arith+
    ultimately show ?thesis using u bl by simp
  next
    case False
    have u: "undo ?c = ?c\<lparr>triggerUndo := triggerUndo ?c + 1, prevTriggerUndo := triggerUndo ?c + 1\<rparr>"
      using undo_cases [OF tr] len False by simp
    show ?thesis using u hi bm False tr L by auto
  qed
qed

lemma commits_triggers:
  "triggerUndo (commits bs c) = triggerUndo c \<and> prevTriggerUndo (commits bs c) = prevTriggerUndo c"
  by (induction bs arbitrary: c) (simp_all add: commits_def commit_def saveHistory_def Let_def)

lemma undo_short:
  assumes "length (history c) \<le> 1"
  shows "bitmap (undo c) = bitmap c \<and> history (undo c) = history c
    \<and> pendingLoad (undo c) = pendingLoad c"
  using assms by (simp add: undo_def undoEffect_def Let_def)






text \<open>
  Every state the component reaches after \<open>mount\<close> has at most 20 snapshots and equal
  triggers, so the premises of the statements below hold in all of them.
\<close>

lemma handle_reachable:
  assumes "length (history c) \<le> 20 \<and> prevTriggerUndo c = triggerUndo c"
  shows "length (history (handle drawImage w h c e)) \<le> 20
    \<and> prevTriggerUndo (handle drawImage w h c e) = triggerUndo (handle drawImage w h c e)"
proof (cases e)
  case (Commit b)
  have "length (history (commit b c)) \<le> 20
      \<and> prevTriggerUndo (commit b c) = triggerUndo (commit b c)"
    using assms
    by (simp add: commit_def history_saveHistory) (simp add: saveHistory_def Let_def)
  then show ?thesis using Commit assms by (simp add: getImageData_def)
next
  case UndoClick
  have "prevTriggerUndo c \<le> triggerUndo c" using assms by simp
  then show ?thesis using UndoClick assms by (auto simp add: undo_cases)
next
  case ImageLoaded
  then show ?thesis using assms
    by (simp add: imageLoaded_def getImageData_def Let_def split: option.splits)
qed

lemma run_reachable:
  assumes "mount w h savedCanvas = Inr c0"
  shows "length (history (run drawImage w h c0 es)) \<le> 20
    \<and> prevTriggerUndo (run drawImage w h c0 es) = triggerUndo (run drawImage w h c0 es)"
proof -
  have "length (history c0) \<le> 20 \<and> prevTriggerUndo c0 = triggerUndo c0"
    using assms by (auto simp add: mount_def Let_def split: option.splits if_splits)
  then show ?thesis unfolding run_def
  proof (induction es arbitrary: c0)
    case Nil
    then show ?case by simp
  next
    case (Cons e es)
    then show ?case using handle_reachable [of c0 drawImage w h e] by simp
  qed
qed

text \<open>
  Claim C6. The history never holds more than 20 snapshots, however many are pushed:
  \<open>saveHistory\<close> appends the current bitmap and, when that makes 21 entries, drops
  the entry at index 0. After 25 pushes the history is the last 20 of them (the first 5
  are gone); \<open>n\<close> clicks on undo leave the first \<open>max 1 (20 - n)\<close> of these and show
  snapshot \<open>24 - min n 19\<close>, so 19 earlier states can be brought back and from the
  19th click on undo changes neither the bitmap nor the history.
\<close>

theorem history_bounded:
  assumes "length (history c) \<le> 20" "prevTriggerUndo c \<le> triggerUndo c"
  shows "length (history (commits bs c)) \<le> 20
    \<and> history (saveHistory c) =
        (if length (history c) < 20 then history c @ [bitmap c]
         else tl (history c @ [bitmap c]))
    \<and> (length bs = 25 \<longrightarrow>
          history (commits bs c) = drop 5 bs
          \<and> (\<forall>n. history ((undo ^^ n) (commits bs c)) = take (max 1 (20 - n)) (drop 5 bs))
          \<and> (\<forall>n. 1 \<le> n \<longrightarrow> bitmap ((undo ^^ n) (commits bs c)) = bs ! (24 - min n 19))
          \<and> (\<forall>n. 19 \<le> n \<longrightarrow>
                bitmap (undo ((undo ^^ n) (commits bs c))) = bitmap ((undo ^^ n) (commits bs c))
                \<and> history (undo ((undo ^^ n) (commits bs c)))
                    = history ((undo ^^ n) (commits bs c))))"
proof -
  let ?c = "commits bs c"
  have hc: "history ?c = drop (length (history c) + length bs - 20) (history c @ bs)"
    using assms(1) by (rule history_commits)
  have b: "length (history ?c) \<le> 20" unfolding hc by simp
  have big: "length bs = 25 \<longrightarrow> history ?c = drop 5 bs
      \<and> (\<forall>n. history ((undo ^^ n) ?c) = take (max 1 (20 - n)) (drop 5 bs))
      \<and> (\<forall>n. 1 \<le> n \<longrightarrow> bitmap ((undo ^^ n) ?c) = bs ! (24 - min n 19))
      \<and> (\<forall>n. 19 \<le> n \<longrightarrow>
            bitmap (undo ((undo ^^ n) ?c)) = bitmap ((undo ^^ n) ?c)
            \<and> history (undo ((undo ^^ n) ?c)) = history ((undo ^^ n) ?c))"
  proof (rule impI)
    assume l: "length bs = 25"
    have h5: "history ?c = drop 5 bs" unfolding hc using l assms(1) by simp
    have ne: "history ?c \<noteq> []" and l20: "length (history ?c) = 20"
      unfolding h5 using l by auto
    have tr: "prevTriggerUndo ?c \<le> triggerUndo ?c"
      using assms(2) commits_triggers [of bs c] by simp
    note up = undo_pow [OF tr ne, unfolded l20]
    have hn: "history ((undo ^^ n) ?c) = take (max 1 (20 - n)) (drop 5 bs)" for n
      using up [of n] h5 by simp
    have bn: "bitmap ((undo ^^ n) ?c) = bs ! (24 - min n 19)" if "1 \<le> n" for n
    proof -
      have "bitmap ((undo ^^ n) ?c) = drop 5 bs ! (max 1 (20 - n) - 1)"
        using up [of n] that h5 by simp
      also have "\<dots> = bs ! (5 + (max 1 (20 - n) - 1))"
        using l by simp
      also have "5 + (max 1 (20 - n) - 1) = 24 - min n 19" using that by arith
      finally show ?thesis .
    qed
    have st: "bitmap (undo ((undo ^^ n) ?c)) = bitmap ((undo ^^ n) ?c)
        \<and> history (undo ((undo ^^ n) ?c)) = history ((undo ^^ n) ?c)" if "19 \<le> n" for n
    proof -
      have "length (history ((undo ^^ n) ?c)) \<le> 1"
        unfolding hn using that by simp
      then show ?thesis using undo_short by blast
    qed
    show "history ?c = drop 5 bs
      \<and> (\<forall>n. history ((undo ^^ n) ?c) = take (max 1 (20 - n)) (drop 5 bs))
      \<and> (\<forall>n. 1 \<le> n \<longrightarrow> bitmap ((undo ^^ n) ?c) = bs ! (24 - min n 19))
      \<and> (\<forall>n. 19 \<le> n \<longrightarrow>
            bitmap (undo ((undo ^^ n) ?c)) = bitmap ((undo ^^ n) ?c)
            \<and> history (undo ((undo ^^ n) ?c)) = history ((undo ^^ n) ?c))"
      using h5 hn bn st by (intro conjI allI impI) simp_all
  qed
  show ?thesis
    by (intro conjI) (rule b, rule history_saveHistory, rule big)
qed

text \<open>
  Claim C7. A click on undo with at most one snapshot in the history leaves the bitmap
  and the history as they are. With two or more, the last snapshot is removed, the
  length decreases by exactly one, and the bitmap becomes the snapshot that is now last.
\<close>

theorem undo_pops_or_noop:
  assumes "prevTriggerUndo c \<le> triggerUndo c"
  shows "(length (history c) \<le> 1 \<longrightarrow>
            bitmap (undo c) = bitmap c \<and> history (undo c) = history c)
    \<and> (2 \<le> length (history c) \<longrightarrow>
            history (undo c) = butlast (history c)
            \<and> length (history (undo c)) = length (history c) - 1
            \<and> bitmap (undo c) = last (history (undo c)))"
  using undo_cases [OF assms] by auto


text \<open>
  Claim C9. The stroke style that \<open>draw\<close> sets for a segment is \<open>#ffffff\<close>, opaque
  white, when the tool is the eraser, whatever the selected colour; with every other
  tool it is the selected colour.
\<close>

theorem draw_stroke_color:
  "strokeStyle (draw tool color brushSize start end') = (if tool = ERASER then ''#ffffff'' else color)
   \<and> targetColor ''#ffffff'' = [Some 255, Some 255, Some 255, Some 255]"
proof -
  have "targetColor ''#ffffff'' = [Some 255, Some 255, Some 255, Some 255]" by code_simp
  then show ?thesis by (simp add: draw_def)
qed

theorem history_bounded_witness:
  "length (history (sampleComponent [[0]])) \<le> 20
   \<and> prevTriggerUndo (sampleComponent [[0]]) \<le> triggerUndo (sampleComponent [[0]])
   \<and> length sampleSnaps = 25
   \<and> length (history (commits sampleSnaps (sampleComponent [[0]]))) \<le> 20
   \<and> history ((undo ^^ 19) (commits sampleSnaps (sampleComponent [[0]]))) = [[5]]
   \<and> bitmap ((undo ^^ 30) (commits sampleSnaps (sampleComponent [[0]]))) = [5]"
proof -
  have h1: "length (history (sampleComponent [[0]])) \<le> 20" by code_simp
  have h2: "prevTriggerUndo (sampleComponent [[0]]) \<le> triggerUndo (sampleComponent [[0]])"
    by code_simp
  have h3: "length sampleSnaps = 25" by code_simp
  have e1: "take (max 1 (20 - 19)) (drop 5 sampleSnaps) = [[5]]" by code_simp
  have e2: "sampleSnaps ! (24 - min 30 19) = [5]" by code_simp
  from history_bounded [OF h1 h2, of sampleSnaps] h3
  have a: "length (history (commits sampleSnaps (sampleComponent [[0]]))) \<le> 20"
    and b: "\<forall>n. history ((undo ^^ n) (commits sampleSnaps (sampleComponent [[0]])))
              = take (max 1 (20 - n)) (drop 5 sampleSnaps)"
    and c: "\<forall>n. 1 \<le> n \<longrightarrow> bitmap ((undo ^^ n) (commits sampleSnaps (sampleComponent [[0]])))
              = sampleSnaps ! (24 - min n 19)"
    by simp_all
  have "history ((undo ^^ 19) (commits sampleSnaps (sampleComponent [[0]]))) = [[5]]"
    using b [rule_format, of 19] e1 by simp
  moreover have "bitmap ((undo ^^ 30) (commits sampleSnaps (sampleComponent [[0]]))) = [5]"
    using c [rule_format, of 30] e2 by simp
  ultimately show ?thesis using h1 h2 h3 a by simp
qed

theorem undo_pops_or_noop_witness:
  "prevTriggerUndo (sampleComponent [[1], [2], [3]]) \<le> triggerUndo (sampleComponent [[1], [2], [3]])
   \<and> 2 \<le> length (history (sampleComponent [[1], [2], [3]]))
   \<and> history (undo (sampleComponent [[1], [2], [3]])) = [[1], [2]]
   \<and> bitmap (undo (sampleComponent [[1], [2], [3]])) = [2]
   \<and> prevTriggerUndo (sampleComponent [[1]]) \<le> triggerUndo (sampleComponent [[1]])
   \<and> length (history (sampleComponent [[1]])) \<le> 1
   \<and> history (undo (sampleComponent [[1]])) = [[1]]
   \<and> bitmap (undo (sampleComponent [[1]])) = [1]"
proof -
  have h1: "prevTriggerUndo (sampleComponent [[1], [2], [3]])
      \<le> triggerUndo (sampleComponent [[1], [2], [3]])" by code_simp
  have h2: "prevTriggerUndo (sampleComponent [[1]]) \<le> triggerUndo (sampleComponent [[1]])"
    by code_simp
  have e1: "history (sampleComponent [[1], [2], [3]]) = [[1], [2], [3]]"
    and e2: "history (sampleComponent [[1]]) = [[1]]"
    and e3: "bitmap (sampleComponent [[1]]) = [1]"
    by (simp_all add: sampleComponent_def)
  show ?thesis
    using h1 h2 undo_pops_or_noop [OF h1] undo_pops_or_noop [OF h2]
    unfolding e1 e2 e3 by simp
qed



theorem draw_stroke_color_witness:
  "strokeStyle (draw ERASER ''#ef4444'' 5 (0, 0) (10, 10)) = ''#ffffff''
   \<and> strokeStyle (draw BRUSH ''#ef4444'' 5 (0, 0) (10, 10)) = ''#ef4444''"
  using draw_stroke_color [of ERASER "''#ef4444''" 5 "(0, 0)" "(10, 10)"]
    draw_stroke_color [of BRUSH "''#ef4444''" 5 "(0, 0)" "(10, 10)"]
  by simp

end
